theory Spec2Isabelle
  imports Complex_Main
begin

section \<open>Image Stitcher: the layout of the stitched canvas\<close>

text \<open>
  The node \<open>ImageStitcher\<close> (file \<open>nodes/ImageStitcher/ImageStitcher.node.ts\<close>) fetches a list
  of images, optionally normalises their widths, stacks them vertically on a canvas and
  optionally uploads the encoded canvas. The model follows \<open>execute\<close> stage by stage.

  Numbers: widths, heights, offsets and the \<open>spacing\<close> and \<open>targetWidth\<close> parameters are
  JavaScript numbers holding integers; they are modelled as \<open>int\<close>. Strings are lists of
  code units below 256.
\<close>

datatype Alignment = Left | Center | Right

text \<open>An entry of the array \<open>dimensions\<close>: \<open>{ width: number; height: number }\<close>.\<close>

record dimension =
  width :: int
  height :: int

text \<open>
  The arrays \<open>imageBuffers\<close> and \<open>dimensions\<close> are filled by the same loop, one \<open>push\<close> to each
  per key, and afterwards only read and written at a common index: an image is the pair of its
  buffer and its dimensions, and the two arrays are one list of images.
\<close>

type_synonym 'b image = "'b \<times> dimension"

text \<open>
  \<open>Math.max(...xs)\<close>: the greatest element; for no argument JavaScript gives \<open>-Infinity\<close>,
  which is no integer: \<open>None\<close>.
\<close>

fun Math_max :: "int list \<Rightarrow> int option" where
  "Math_max [] = None"
| "Math_max (x # xs) = Some (fold max xs x)"

text \<open>
  Lines 278-280:
  \<^verbatim>\<open>normalizeWidth ? (targetWidthParam && targetWidthParam > 0 ? targetWidthParam : canvasWidth) : canvasWidth\<close>.
  A number is truthy when it is not zero.
\<close>

definition targetWidthOf :: "bool \<Rightarrow> int \<Rightarrow> int \<Rightarrow> int" where
  "targetWidthOf normalizeWidth targetWidthParam canvasWidth =
     (if normalizeWidth
      then (if targetWidthParam \<noteq> 0 \<and> targetWidthParam > 0 then targetWidthParam else canvasWidth)
      else canvasWidth)"

text \<open>
  The imaging library's call
  \<^verbatim>\<open>sharp(buf).resize({ width, withoutEnlargement }).toBuffer({ resolveWithObject: true })\<close>
  is a parameter of the model: from a buffer, the target width and the flag it gives the new
  buffer and its \<open>info.width\<close>, \<open>info.height\<close>, or rejects with a message (\<open>Inl\<close>).
\<close>

type_synonym 'b resizer = "'b \<Rightarrow> int \<Rightarrow> bool \<Rightarrow> string + 'b image"

text \<open>
  Lines 283-291, the loop over \<open>i\<close>: an image whose width differs from \<open>targetWidth\<close> is
  replaced by what the library returns for it, with \<open>withoutEnlargement: !allowUpscale\<close>; the
  others are kept. A rejection ends the loop (the \<open>await\<close> throws).
\<close>

fun normalizeImages :: "'b resizer \<Rightarrow> int \<Rightarrow> bool \<Rightarrow> 'b image list \<Rightarrow> string + 'b image list" where
  "normalizeImages rz targetWidth allowUpscale [] = Inr []"
| "normalizeImages rz targetWidth allowUpscale ((buf, d) # rest) =
     (if width d \<noteq> targetWidth
      then (case rz buf targetWidth (\<not> allowUpscale) of
              Inl e \<Rightarrow> Inl e
            | Inr resized \<Rightarrow>
                (case normalizeImages rz targetWidth allowUpscale rest of
                   Inl e \<Rightarrow> Inl e
                 | Inr rest' \<Rightarrow> Inr (resized # rest')))
      else (case normalizeImages rz targetWidth allowUpscale rest of
              Inl e \<Rightarrow> Inl e
            | Inr rest' \<Rightarrow> Inr ((buf, d) # rest')))"

text \<open>
  Line 295:
  \<^verbatim>\<open>dimensions.reduce((acc, d) => acc + d.height, 0) + Math.max(0, (keys.length - 1) * spacing)\<close>.
\<close>

definition canvasHeightOf :: "'b image list \<Rightarrow> nat \<Rightarrow> int \<Rightarrow> int" where
  "canvasHeightOf imgs keys_length spacing =
     foldl (\<lambda>acc i. acc + height (snd i)) 0 imgs + max 0 ((int keys_length - 1) * spacing)"

text \<open>Lines 311-316: the horizontal offset of an image of width \<open>w\<close>.\<close>

fun leftOffset :: "Alignment \<Rightarrow> int \<Rightarrow> int \<Rightarrow> int" where
  "leftOffset Center canvasWidth w = (canvasWidth - w) div 2"
| "leftOffset Right canvasWidth w = canvasWidth - w"
| "leftOffset Left canvasWidth w = 0"

text \<open>An entry of \<open>composites\<close>: \<open>{ input, top, left }\<close>.\<close>

record 'b composite =
  input :: 'b
  top :: int
  left :: int

text \<open>
  Lines 307-319, the placement loop, with \<open>offsetTop\<close> as its state. The test
  \<open>i < imageBuffers.length - 1\<close> holds exactly when images remain after the current one.
\<close>

fun placeImages :: "Alignment \<Rightarrow> int \<Rightarrow> int \<Rightarrow> int \<Rightarrow> 'b image list \<Rightarrow> 'b composite list" where
  "placeImages alignment canvasWidth spacing offsetTop [] = []"
| "placeImages alignment canvasWidth spacing offsetTop ((buf, d) # rest) =
     \<lparr>input = buf, top = offsetTop, left = leftOffset alignment canvasWidth (width d)\<rparr>
     # placeImages alignment canvasWidth spacing
         (offsetTop + (height d + (if rest \<noteq> [] then spacing else 0))) rest"

text \<open>
  A placed image of height \<open>h\<close> with the top offset \<open>t\<close> occupies the pixel rows \<open>y\<close> with
  \<open>t \<le> y < t + h\<close>. Two placed images overlap vertically when some row belongs to both:
  when the later of the two first rows lies before the earlier of the two ends.
\<close>

definition rowsOverlap :: "int \<Rightarrow> int \<Rightarrow> int \<Rightarrow> int \<Rightarrow> bool" where
  "rowsOverlap top1 height1 top2 height2 \<longleftrightarrow>
     max top1 top2 < min (top1 + height1) (top2 + height2)"

text \<open>What lines 277-319 compute from the fetched images.\<close>

record 'b layout =
  canvasWidth :: int
  canvasHeight :: int
  images :: "'b image list"
  composites :: "'b composite list"

text \<open>
  Lines 277-319. \<open>keys_length\<close> is \<open>keys.length\<close>; the fetch loop gives one image per key.
  With no image at all (which \<open>execute\<close> excludes before fetching) the canvas width would be
  \<open>-Infinity\<close> and the library refuses to create the canvas.
\<close>

definition layoutImages ::
  "'b resizer \<Rightarrow> bool \<Rightarrow> int \<Rightarrow> bool \<Rightarrow> int \<Rightarrow> Alignment \<Rightarrow> nat \<Rightarrow> 'b image list \<Rightarrow> string + 'b layout" where
  "layoutImages rz normalizeWidth targetWidthParam allowUpscale spacing alignment keys_length imgs =
     (case Math_max (map (\<lambda>i. width (snd i)) imgs) of
        None \<Rightarrow> Inl ''Expected positive integer for width''
      | Some maxWidth \<Rightarrow>
          (let targetWidth = targetWidthOf normalizeWidth targetWidthParam maxWidth in
           case (if normalizeWidth then normalizeImages rz targetWidth allowUpscale imgs else Inr imgs) of
             Inl e \<Rightarrow> Inl e
           | Inr imgs' \<Rightarrow>
               (let cw = (if normalizeWidth then targetWidth else maxWidth) in
                Inr \<lparr>canvasWidth = cw,
                     canvasHeight = canvasHeightOf imgs' keys_length spacing,
                     images = imgs',
                     composites = placeImages alignment cw spacing 0 imgs'\<rparr>)))"

section \<open>JavaScript string operations\<close>

text \<open>
  \<open>String.prototype.trim\<close> removes white space and line terminators at both ends; among the
  code units below 256 these are TAB, LF, VT, FF, CR, SP and NBSP. \<open>parseInt\<close> skips the same
  characters at the start.
\<close>

definition isWhiteSpace :: "char \<Rightarrow> bool" where
  "isWhiteSpace c \<longleftrightarrow> (of_char c :: nat) \<in> {9, 10, 11, 12, 13, 32, 160}"

definition trim :: "string \<Rightarrow> string" where
  "trim s = rev (dropWhile isWhiteSpace (rev (dropWhile isWhiteSpace s)))"

text \<open>\<open>toLowerCase\<close> on code units below 256: A-Z and the accented capitals move up by 32.\<close>

definition toLowerChar :: "char \<Rightarrow> char" where
  "toLowerChar c =
     (let n = (of_char c :: nat) in
      if (65 \<le> n \<and> n \<le> 90) \<or> (192 \<le> n \<and> n \<le> 222 \<and> n \<noteq> 215) then char_of (n + 32) else c)"

definition toLowerCase :: "string \<Rightarrow> string" where
  "toLowerCase s = map toLowerChar s"

text \<open>\<open>s.replace('#', '')\<close> with a string pattern removes the first occurrence only.\<close>

fun replaceFirst :: "char \<Rightarrow> string \<Rightarrow> string" where
  "replaceFirst c [] = []"
| "replaceFirst c (x # xs) = (if x = c then xs else x # replaceFirst c xs)"

text \<open>\<open>s.slice(i, j)\<close> for \<open>0 \<le> i \<le> j\<close>; indices beyond the end are cut at the end.\<close>

definition slice :: "nat \<Rightarrow> nat \<Rightarrow> string \<Rightarrow> string" where
  "slice i j s = take (j - i) (drop i s)"

definition hexDigit :: "char \<Rightarrow> nat option" where
  "hexDigit c =
     (let n = (of_char c :: nat) in
      if 48 \<le> n \<and> n \<le> 57 then Some (n - 48)
      else if 97 \<le> n \<and> n \<le> 102 then Some (n - 87)
      else if 65 \<le> n \<and> n \<le> 70 then Some (n - 55)
      else None)"

definition hexValue :: "string \<Rightarrow> nat" where
  "hexValue ds = foldl (\<lambda>acc c. 16 * acc + (case hexDigit c of Some v \<Rightarrow> v | None \<Rightarrow> 0)) 0 ds"

text \<open>
  \<open>parseInt(s, 16)\<close>: skip leading white space, read a sign, skip a prefix \<open>0x\<close> or \<open>0X\<close>,
  take the longest run of hexadecimal digits; with no digit the result is \<open>NaN\<close> (\<open>None\<close>),
  otherwise the signed value of the run. What follows the run is ignored.
\<close>

definition parseInt16 :: "string \<Rightarrow> int option" where
  "parseInt16 s =
     (let s1 = dropWhile isWhiteSpace s;
          neg = (take 1 s1 = ''-'');
          s2 = (if take 1 s1 = ''-'' \<or> take 1 s1 = ''+'' then drop 1 s1 else s1);
          s3 = (if take 2 s2 = ''0x'' \<or> take 2 s2 = ''0X'' then drop 2 s2 else s2);
          z = takeWhile (\<lambda>c. hexDigit c \<noteq> None) s3
      in if z = [] then None
         else Some (if neg then - int (hexValue z) else int (hexValue z)))"

text \<open>
  \<open>s.split(/\r?\n|,/)\<close>: the separators are CR LF, LF and the comma, tried in this order at
  each position from the left; a CR that no LF follows is an ordinary character. \<open>cur\<close> is
  the piece being read. The empty string splits into one empty piece.
\<close>

fun splitKeys :: "string \<Rightarrow> string \<Rightarrow> string list" where
  "splitKeys cur [] = [cur]"
| "splitKeys cur [c] =
     (if c = CHR 0x0A \<or> c = CHR '','' then [cur, []] else [cur @ [c]])"
| "splitKeys cur (c # d # ds) =
     (if c = CHR 0x0D \<and> d = CHR 0x0A then cur # splitKeys [] ds
      else if c = CHR 0x0A \<or> c = CHR '','' then cur # splitKeys [] (d # ds)
      else splitKeys (cur @ [c]) (d # ds))"

section \<open>Background colour\<close>

text \<open>
  The value \<open>{ r, g, b, alpha }\<close>. A channel is what \<open>parseInt\<close> gave, so it may be \<open>NaN\<close>
  (\<open>None\<close>); \<open>alpha\<close> is the quotient by 255, taken exactly.
\<close>

record rgba =
  r :: "int option"
  g :: "int option"
  b :: "int option"
  alpha :: "rat option"

text \<open>Lines 13-26. \<open>!input\<close> holds for \<open>undefined\<close> (\<open>None\<close>) and for the empty string.\<close>

definition parseBackgroundColor :: "string option \<Rightarrow> rgba" where
  "parseBackgroundColor inp =
     (case inp of
        None \<Rightarrow> \<lparr>r = Some 0, g = Some 0, b = Some 0, alpha = Some 0\<rparr>
      | Some s \<Rightarrow>
          if s = [] \<or> toLowerCase s = ''transparent''
          then \<lparr>r = Some 0, g = Some 0, b = Some 0, alpha = Some 0\<rparr>
          else
            (let hex = trim (replaceFirst (CHR ''#'') s) in
             if length hex = 6 \<or> length hex = 8
             then \<lparr>r = parseInt16 (slice 0 2 hex),
                   g = parseInt16 (slice 2 4 hex),
                   b = parseInt16 (slice 4 6 hex),
                   alpha = (if length hex = 8
                            then map_option (\<lambda>v. of_int v / 255) (parseInt16 (slice 6 8 hex))
                            else Some 1)\<rparr>
             else \<lparr>r = Some 255, g = Some 255, b = Some 255, alpha = Some 1\<rparr>))"

section \<open>Source keys\<close>

text \<open>
  The parameter \<open>sourceKeys\<close> is read as \<open>unknown\<close>; lines 228-254 tell five cases apart, in
  this order: an array, a string, an object with an array \<open>keys\<close>, any other value that is
  neither \<open>null\<close> nor \<open>undefined\<close>, and the rest. \<open>'v\<close> is the type of the values that are
  coerced with \<open>String(...)\<close>.
\<close>

datatype 'v sourceKeys =
    KeysArray "'v list"
  | KeysString string
  | KeysObject "'v list"
  | KeysOther 'v
  | KeysNullish

text \<open>Lines 227-254; \<open>toStr\<close> is JavaScript's \<open>String(...)\<close>.\<close>

fun parseKeys :: "('v \<Rightarrow> string) \<Rightarrow> 'v sourceKeys \<Rightarrow> string list" where
  "parseKeys toStr (KeysArray ks) = filter (\<lambda>s. length s > 0) (map trim (map toStr ks))"
| "parseKeys toStr (KeysString s) = filter (\<lambda>s. length s > 0) (map trim (splitKeys [] s))"
| "parseKeys toStr (KeysObject ks) = filter (\<lambda>s. length s > 0) (map trim (map toStr ks))"
| "parseKeys toStr (KeysOther v) = filter (\<lambda>s. length s > 0) (map trim (splitKeys [] (toStr v)))"
| "parseKeys toStr KeysNullish = []"

section \<open>One request\<close>

datatype Format = PNG | JPEG | WEBP

text \<open>The node parameters of one input item, as lines 212-225 read them.\<close>

record 'v params =
  sourceBucket :: string
  sourceKeysParam :: "'v sourceKeys"
  spacing :: int
  alignment :: Alignment
  normalizeWidth :: bool
  targetWidthParam :: int
  allowUpscale :: bool
  backgroundColor :: string
  format :: Format
  quality :: int
  destinationBucket :: string
  destinationKey :: string
  outputBinary :: bool
  binaryPropertyName :: string

text \<open>
  What the code reaches outside itself, as parameters of the model. \<open>'b\<close> is a buffer and
  \<open>'s\<close> the contents of the object store. A \<open>string +\<close> result is a promise: \<open>Inl\<close> is the
  message it rejects with.
  \<^item> \<open>getObject\<close>: \<open>minioClient.getObject\<close> followed by \<open>streamToBuffer\<close>;
  \<^item> \<open>metadata\<close>: \<open>sharp(buffer).metadata()\<close>, of which \<open>width\<close> and \<open>height\<close> are read,
    each possibly \<open>undefined\<close>;
  \<^item> \<open>resize\<close>: see \<open>resizer\<close>;
  \<^item> \<open>render\<close>: \<open>sharp({ create })\<close>, \<open>composite\<close>, the encoder of the format (with the
    quality for JPEG and WebP) and \<open>toBuffer\<close>;
  \<^item> \<open>putObject\<close>: \<open>minioClient.putObject\<close> with the content type, giving the new store and
    the \<open>etag\<close>, which may be missing;
  \<^item> \<open>toBase64\<close>: \<open>outBuffer.toString('base64')\<close>; \<open>js_String\<close>: \<open>String(...)\<close>.
\<close>

record ('b, 's, 'v) collab =
  js_String :: "'v \<Rightarrow> string"
  getObject :: "'s \<Rightarrow> string \<Rightarrow> string \<Rightarrow> string + 'b"
  metadata :: "'b \<Rightarrow> string + int option \<times> int option"
  resize :: "'b resizer"
  render :: "dimension \<Rightarrow> rgba \<Rightarrow> 'b composite list \<Rightarrow> Format \<Rightarrow> int option \<Rightarrow> string + 'b"
  putObject :: "'s \<Rightarrow> string \<Rightarrow> string \<Rightarrow> 'b \<Rightarrow> string \<Rightarrow> 's \<times> (string + string option)"
  toBase64 :: "'b \<Rightarrow> string"

text \<open>
  The state: the object store, and the list of the \<open>putObject\<close> calls made so far (bucket,
  key, buffer, content type), which the model keeps to say what was called.
\<close>

record ('b, 's) world =
  store :: 's
  puts :: "(string \<times> string \<times> 'b \<times> string) list"

text \<open>
  An exception: a \<open>NodeOperationError\<close> with its message and the \<open>itemIndex\<close> of its context,
  or an error of a library, which has no context.
\<close>

datatype error = NodeOperationError string nat | LibraryError string

fun message :: "error \<Rightarrow> string" where
  "message (NodeOperationError m i) = m"
| "message (LibraryError m) = m"

text \<open>
  Lines 265-274, the fetch loop: per key the object, its metadata, the test
  \<open>!meta.width || !meta.height\<close> (a number is falsy when \<open>undefined\<close> or zero) and the two
  \<open>push\<close>.
\<close>

fun fetchImages :: "('b, 's, 'v) collab \<Rightarrow> 's \<Rightarrow> nat \<Rightarrow> string \<Rightarrow> string list \<Rightarrow> error + 'b image list" where
  "fetchImages c s itemIndex bkt [] = Inr []"
| "fetchImages c s itemIndex bkt (k # ks) =
     (case getObject c s bkt k of
        Inl m \<Rightarrow> Inl (LibraryError m)
      | Inr buffer \<Rightarrow>
          (case metadata c buffer of
             Inl m \<Rightarrow> Inl (LibraryError m)
           | Inr (Some w, Some h) \<Rightarrow>
               if w = 0 \<or> h = 0
               then Inl (NodeOperationError (''Could not read image metadata for key: '' @ k) itemIndex)
               else (case fetchImages c s itemIndex bkt ks of
                       Inl e \<Rightarrow> Inl e
                     | Inr rest \<Rightarrow> Inr ((buffer, \<lparr>width = w, height = h\<rparr>) # rest))
           | Inr _ \<Rightarrow>
               Inl (NodeOperationError (''Could not read image metadata for key: '' @ k) itemIndex)))"

fun mimeTypeOf :: "Format \<Rightarrow> string" where
  "mimeTypeOf PNG = ''image/png''"
| "mimeTypeOf JPEG = ''image/jpeg''"
| "mimeTypeOf WEBP = ''image/webp''"

fun formatName :: "Format \<Rightarrow> string" where
  "formatName PNG = ''png''"
| "formatName JPEG = ''jpeg''"
| "formatName WEBP = ''webp''"

text \<open>The field \<open>uploaded\<close> of the result and the entry of \<open>newItem.binary\<close>.\<close>

record uploadInfo =
  bucket :: string
  key :: string
  etag :: "string option"

record binaryData =
  data :: string
  mimeType :: string
  fileName :: string

text \<open>
  \<open>newItem\<close>: the fields of \<open>json\<close>, where \<open>uploaded\<close> is \<open>undefined\<close> (\<open>None\<close>) without an
  upload, and \<open>binary\<close>, the property name with its entry, when \<open>outputBinary\<close> is set.
\<close>

record stitched =
  json_sourceBucket :: string
  json_sourceKeys :: "string list"
  canvas :: dimension
  uploaded :: "uploadInfo option"
  binary :: "(string \<times> binaryData) option"

text \<open>
  Lines 336-341: the upload, made when \<open>destinationBucket && destinationKey\<close> holds (a string
  is truthy when it is not empty). The call is recorded also when it rejects.
\<close>

definition publish ::
  "('b, 's, 'v) collab \<Rightarrow> string \<Rightarrow> string \<Rightarrow> 'b \<Rightarrow> string \<Rightarrow> ('b, 's) world
     \<Rightarrow> ('b, 's) world \<times> (string + string option option)" where
  "publish c dstBucket dstKey outBuffer mime w =
     (if dstBucket \<noteq> [] \<and> dstKey \<noteq> []
      then (case putObject c (store w) dstBucket dstKey outBuffer mime of
              (s', res) \<Rightarrow>
                (\<lparr>store = s', puts = puts w @ [(dstBucket, dstKey, outBuffer, mime)]\<rparr>,
                 case res of Inl m \<Rightarrow> Inl m | Inr tag \<Rightarrow> Inr (Some tag)))
      else (w, Inr None))"

text \<open>Lines 343-359: the output item.\<close>

definition newItem :: "('b, 's, 'v) collab \<Rightarrow> 'v params \<Rightarrow> string list \<Rightarrow> 'b layout \<Rightarrow> 'b
     \<Rightarrow> string option option \<Rightarrow> stitched" where
  "newItem c p keys lay outBuffer upl =
     \<lparr>json_sourceBucket = sourceBucket p,
      json_sourceKeys = keys,
      canvas = \<lparr>width = canvasWidth lay, height = canvasHeight lay\<rparr>,
      uploaded =
        (if destinationBucket p \<noteq> [] \<and> destinationKey p \<noteq> []
         then Some \<lparr>bucket = destinationBucket p, key = destinationKey p,
                    etag = (case upl of None \<Rightarrow> None | Some tag \<Rightarrow> tag)\<rparr>
         else None),
      binary =
        (if outputBinary p
         then Some (binaryPropertyName p,
                    \<lparr>data = toBase64 c outBuffer,
                     mimeType = mimeTypeOf (format p),
                     fileName = (if destinationKey p \<noteq> [] then destinationKey p
                                 else ''stitched.'' @ formatName (format p))\<rparr>)
         else None)\<rparr>"

text \<open>
  Lines 212-361, the body of the \<open>try\<close> for the item \<open>itemIndex\<close>: the new state and the
  output item, or the exception thrown.
\<close>

definition processItem ::
  "('b, 's, 'v) collab \<Rightarrow> nat \<Rightarrow> 'v params \<Rightarrow> ('b, 's) world \<Rightarrow> ('b, 's) world \<times> (error + stitched)" where
  "processItem c itemIndex p w =
     (let keys = parseKeys (js_String c) (sourceKeysParam p) in
      if sourceBucket p = [] then (w, Inl (NodeOperationError ''Source bucket is required'' itemIndex))
      else if length keys = 0
      then (w, Inl (NodeOperationError ''At least one source key is required'' itemIndex))
      else
        (case fetchImages c (store w) itemIndex (sourceBucket p) keys of
           Inl e \<Rightarrow> (w, Inl e)
         | Inr imgs \<Rightarrow>
             (case layoutImages (resize c) (normalizeWidth p) (targetWidthParam p) (allowUpscale p)
                     (spacing p) (alignment p) (length keys) imgs of
                Inl m \<Rightarrow> (w, Inl (LibraryError m))
              | Inr lay \<Rightarrow>
                  (case render c \<lparr>width = canvasWidth lay, height = canvasHeight lay\<rparr>
                          (parseBackgroundColor (Some (backgroundColor p))) (composites lay) (format p)
                          (if format p = PNG then None else Some (quality p)) of
                     Inl m \<Rightarrow> (w, Inl (LibraryError m))
                   | Inr outBuffer \<Rightarrow>
                       (case publish c (destinationBucket p) (destinationKey p) outBuffer
                               (mimeTypeOf (format p)) w of
                          (w', Inl m) \<Rightarrow> (w', Inl (LibraryError m))
                        | (w', Inr upl) \<Rightarrow> (w', Inr (newItem c p keys lay outBuffer upl)))))))"

section \<open>The batch\<close>

text \<open>
  An element of \<open>returnData\<close>: the item of a stitched request, or the placeholder
  \<open>{ json: { error: message }, pairedItem: itemIndex }\<close> of a failed one.
\<close>

datatype outItem = Stitched stitched | ErrorItem string nat

text \<open>
  Lines 367-371: the exception that leaves \<open>execute\<close>. A \<open>NodeOperationError\<close> has a context,
  which receives the item index; any other error is wrapped in a new \<open>NodeOperationError\<close>
  with that index.
\<close>

fun rethrow :: "error \<Rightarrow> nat \<Rightarrow> error" where
  "rethrow (NodeOperationError m i) itemIndex = NodeOperationError m itemIndex"
| "rethrow (LibraryError m) itemIndex = NodeOperationError m itemIndex"

text \<open>
  Lines 210-373, the loop over the items, from the item \<open>itemIndex\<close> on; \<open>continueOnFail\<close>
  is the answer of \<open>this.continueOnFail()\<close>.
\<close>

fun executeLoop ::
  "('b, 's, 'v) collab \<Rightarrow> bool \<Rightarrow> nat \<Rightarrow> 'v params list \<Rightarrow> outItem list \<Rightarrow> ('b, 's) world
     \<Rightarrow> ('b, 's) world \<times> (error + outItem list)" where
  "executeLoop c continueOnFail itemIndex [] returnData w = (w, Inr returnData)"
| "executeLoop c continueOnFail itemIndex (p # ps) returnData w =
     (case processItem c itemIndex p w of
        (w', Inr item) \<Rightarrow>
          executeLoop c continueOnFail (Suc itemIndex) ps (returnData @ [Stitched item]) w'
      | (w', Inl err) \<Rightarrow>
          if continueOnFail
          then executeLoop c continueOnFail (Suc itemIndex) ps
                 (returnData @ [ErrorItem (message err) itemIndex]) w'
          else (w', Inl (rethrow err itemIndex)))"

definition execute ::
  "('b, 's, 'v) collab \<Rightarrow> bool \<Rightarrow> 'v params list \<Rightarrow> ('b, 's) world
     \<Rightarrow> ('b, 's) world \<times> (error + outItem list)" where
  "execute c continueOnFail items w = executeLoop c continueOnFail 0 items [] w"

section \<open>The imaging library's resize, and an in-memory backend\<close>

text \<open>
  Modelled from the spec: the resize of the imaging library (\<open>sharp\<close>), which the repository
  calls and does not contain. The spec (Width Normalizer) has an image resized "to exactly
  targetWidth", and with \<open>allowUpscale\<close> false (the flag \<open>withoutEnlargement\<close>) "images narrower
  than targetWidth are left unresized ... resize call must not scale up, only down or no-op".
  \<open>md\<close> is the metadata reader, which gives the size of the buffer to be resized.
\<close>

definition honoursResize :: "('b \<Rightarrow> string + int option \<times> int option) \<Rightarrow> 'b resizer \<Rightarrow> bool" where
  "honoursResize md rz \<longleftrightarrow>
     (\<forall>buf tw data info. rz buf tw False = Inr (data, info) \<longrightarrow> width info = tw) \<and>
     (\<forall>buf tw data info w h.
        md buf = Inr (Some w, Some h) \<and> rz buf tw True = Inr (data, info) \<longrightarrow>
        (if w < tw then info = \<lparr>width = w, height = h\<rparr> else width info = tw))"

text \<open>
  The images of a request agree with the metadata reader: \<open>dimensions[i]\<close> is what
  \<open>metadata\<close> read from \<open>imageBuffers[i]\<close>.
\<close>

definition measured :: "('b \<Rightarrow> string + int option \<times> int option) \<Rightarrow> 'b image list \<Rightarrow> bool" where
  "measured md imgs \<longleftrightarrow> list_all (\<lambda>i. md (fst i) = Inr (Some (width (snd i)), Some (height (snd i)))) imgs"

text \<open>
  Modelled from the spec: the canvas of the imaging library, which the repository asks for
  (lines 298-305 and 321) and does not contain. The spec (Canvas Compositor) has "one
  destination image of size (canvasWidth, canvasHeight) filled with the background color
  (including alpha channel ...)", on which every image is composited at its placement. A
  placed image covers the pixels of its rectangle; a pixel of the canvas that no placed image
  covers is unpainted and keeps the background colour. The colour of a covered pixel comes
  from the picture and is not modelled (\<open>None\<close>).
\<close>

definition covers :: "'b composite \<Rightarrow> dimension \<Rightarrow> int \<Rightarrow> int \<Rightarrow> bool" where
  "covers cmp d x y \<longleftrightarrow>
     left cmp \<le> x \<and> x < left cmp + width d \<and> top cmp \<le> y \<and> y < top cmp + height d"

definition unpainted :: "'b layout \<Rightarrow> int \<Rightarrow> int \<Rightarrow> bool" where
  "unpainted lay x y \<longleftrightarrow>
     0 \<le> x \<and> x < canvasWidth lay \<and> 0 \<le> y \<and> y < canvasHeight lay \<and>
     \<not> list_ex (\<lambda>(cmp, i). covers cmp (snd i) x y) (zip (composites lay) (images lay))"

definition canvasPixel :: "rgba \<Rightarrow> 'b layout \<Rightarrow> int \<Rightarrow> int \<Rightarrow> rgba option" where
  "canvasPixel bg lay x y = (if unpainted lay x y then Some bg else None)"

text \<open>
  Modelled from the spec: an in-memory imaging backend in which a buffer is the size of its
  picture. The height of a resized picture is "scaled proportionally (aspect-ratio
  preserved), rounded to nearest whole pixel"; a picture that may not be enlarged and is
  narrower than the target is returned as it is.
\<close>

definition sizeMetadata :: "dimension \<Rightarrow> string + int option \<times> int option" where
  "sizeMetadata buf = Inr (Some (width buf), Some (height buf))"

definition sizeResize :: "dimension resizer" where
  "sizeResize buf tw withoutEnlargement =
     (if withoutEnlargement \<and> width buf < tw then Inr (buf, buf)
      else (let d = \<lparr>width = tw, height = (2 * height buf * tw + width buf) div (2 * width buf)\<rparr>
            in Inr (d, d)))"

text \<open>
  The other collaborators of the in-memory backend: the store is an association list from
  bucket and key to buffer, \<open>putObject\<close> adds an entry in front and answers with a fixed
  \<open>etag\<close>, an encoded canvas is its size, and the base-64 text is left empty.
\<close>

definition memoryBackend :: "(dimension, ((string \<times> string) \<times> dimension) list, string) collab" where
  "memoryBackend =
     \<lparr>js_String = (\<lambda>v. v),
      getObject = (\<lambda>s bkt k. case map_of s (bkt, k) of None \<Rightarrow> Inl ''NoSuchKey'' | Some buf \<Rightarrow> Inr buf),
      metadata = sizeMetadata,
      resize = sizeResize,
      render = (\<lambda>size bg comps fmt q. Inr size),
      putObject = (\<lambda>s bkt k buf mime. (((bkt, k), buf) # s, Inr (Some ''etag-1''))),
      toBase64 = (\<lambda>buf. [])\<rparr>"

text \<open>The store and the two requests used in the examples below.\<close>

definition exampleStore :: "((string \<times> string) \<times> dimension) list" where
  "exampleStore =
     [((''in'', ''a.png''), \<lparr>width = 100, height = 50\<rparr>),
      ((''in'', ''b.png''), \<lparr>width = 100, height = 80\<rparr>)]"

definition exampleWorld :: "(dimension, ((string \<times> string) \<times> dimension) list) world" where
  "exampleWorld = \<lparr>store = exampleStore, puts = []\<rparr>"

definition exampleRequest :: "string params" where
  "exampleRequest =
     \<lparr>sourceBucket = ''in'', sourceKeysParam = KeysString ''a.png,b.png'', spacing = 10,
      alignment = Left, normalizeWidth = True, targetWidthParam = 0, allowUpscale = True,
      backgroundColor = ''transparent'', format = PNG, quality = 80,
      destinationBucket = [], destinationKey = [], outputBinary = True,
      binaryPropertyName = ''data''\<rparr>"

text \<open>The same request with a destination, and the state after its upload.\<close>

definition uploadRequest :: "string params" where
  "uploadRequest = exampleRequest\<lparr>destinationBucket := ''out'', destinationKey := ''o.png''\<rparr>"

definition uploadedWorld :: "(dimension, ((string \<times> string) \<times> dimension) list) world" where
  "uploadedWorld =
     \<lparr>store = ((''out'', ''o.png''), \<lparr>width = 100, height = 140\<rparr>) # exampleStore,
      puts = [(''out'', ''o.png'', \<lparr>width = 100, height = 140\<rparr>, ''image/png'')]\<rparr>"

text \<open>The request without a source bucket.\<close>

definition noBucketRequest :: "string params" where
  "noBucketRequest = exampleRequest\<lparr>sourceBucket := []\<rparr>"

text \<open>The output items of the two requests.\<close>

definition exampleItem :: stitched where
  "exampleItem =
     \<lparr>json_sourceBucket = ''in'', json_sourceKeys = [''a.png'', ''b.png''],
      canvas = \<lparr>width = 100, height = 140\<rparr>, uploaded = None,
      binary = Some (''data'', \<lparr>data = [], mimeType = ''image/png'', fileName = ''stitched.png''\<rparr>)\<rparr>"

definition uploadedItem :: stitched where
  "uploadedItem =
     \<lparr>json_sourceBucket = ''in'', json_sourceKeys = [''a.png'', ''b.png''],
      canvas = \<lparr>width = 100, height = 140\<rparr>,
      uploaded = Some \<lparr>bucket = ''out'', key = ''o.png'', etag = Some ''etag-1''\<rparr>,
      binary = Some (''data'', \<lparr>data = [], mimeType = ''image/png'', fileName = ''o.png''\<rparr>)\<rparr>"

section \<open>Facts about the layout\<close>

lemma foldl_heights:
  "foldl (\<lambda>acc i. acc + height (snd i)) a imgs = a + sum_list (map (\<lambda>i. height (snd i)) imgs)"
  by (induction imgs arbitrary: a) auto

lemma length_placeImages: "length (placeImages al cw sp t imgs) = length imgs"
  by (induction imgs arbitrary: t) auto

lemma top_placeImages:
  "k < length imgs \<Longrightarrow>
   top (placeImages al cw sp t imgs ! k) = t + sum_list (map (\<lambda>i. height (snd i)) (take k imgs)) + int k * sp"
proof (induction imgs arbitrary: t k)
  case Nil
  then show ?case by simp
next
  case (Cons x rest)
  obtain buf d where x: "x = (buf, d)" by (cases x)
  show ?case
  proof (cases k)
    case 0
    then show ?thesis by (simp add: x)
  next
    case (Suc j)
    with Cons.prems have j: "j < length rest" by simp
    then have "rest \<noteq> []" by auto
    with Cons.IH [OF j] Suc show ?thesis by (simp add: x algebra_simps)
  qed
qed

lemma left_placeImages:
  "k < length imgs \<Longrightarrow>
   left (placeImages al cw sp t imgs ! k) = leftOffset al cw (width (snd (imgs ! k)))"
proof (induction imgs arbitrary: t k)
  case Nil
  then show ?case by simp
next
  case (Cons x rest)
  then show ?case by (cases x; cases k) auto
qed

lemma length_normalizeImages:
  "normalizeImages rz tw au imgs = Inr imgs' \<Longrightarrow> length imgs' = length imgs"
  by (induction imgs arbitrary: imgs') (auto split: if_splits sum.splits)

lemma layoutImages_InrD:
  assumes "layoutImages rz nw twp au sp al n imgs = Inr L"
  shows "imgs \<noteq> []"
    and "length (images L) = length imgs"
    and "canvasHeight L = canvasHeightOf (images L) n sp"
    and "composites L = placeImages al (canvasWidth L) sp 0 (images L)"
  using assms
  by (auto simp: layoutImages_def Let_def length_normalizeImages split: option.splits sum.splits if_splits)

lemma layoutImages_spacing_irrelevant:
  assumes "layoutImages rz nw twp au sp al n imgs = Inr L"
  shows "\<exists>L'. layoutImages rz nw twp au sp' al n imgs = Inr L'"
  using assms
  by (auto simp: layoutImages_def Let_def split: option.splits sum.splits if_splits)

lemma sorted_tops:
  assumes "0 \<le> sp" and "\<forall>i\<in>set imgs. 0 \<le> height (snd i)"
    and "j \<le> k" and "k < length imgs"
  shows "top (placeImages al cw sp t imgs ! j) \<le> top (placeImages al cw sp t imgs ! k)"
proof -
  have "take k imgs = take j imgs @ take (k - j) (drop j imgs)"
    using assms(3) by (metis le_add_diff_inverse take_add)
  moreover have "0 \<le> sum_list (map (\<lambda>i. height (snd i)) (take (k - j) (drop j imgs)))"
    using assms(2) by (intro sum_list_nonneg) (auto dest!: in_set_takeD in_set_dropD)
  moreover have "int j * sp \<le> int k * sp"
    using assms(1,3) by (simp add: mult_right_mono)
  ultimately show ?thesis
    using assms(3,4) by (simp add: top_placeImages)
qed

lemma clamp_spacing:
  "1 \<le> n \<Longrightarrow> max 0 ((int n - 1) * sp) = (if 0 \<le> sp then sp * (int n - 1) else 0)"
proof (cases "0 \<le> sp")
  case True
  assume "1 \<le> n"
  then have "0 \<le> (int n - 1) * sp" using True by simp
  with True show ?thesis by (simp add: mult.commute)
next
  case False
  assume "1 \<le> n"
  then have "(int n - 1) * sp \<le> 0" using False by (simp add: mult_nonneg_nonpos)
  with False show ?thesis by simp
qed

section \<open>The canvas height (claim C1)\<close>

text \<open>
  Claim C1. The spacing of a request is a non-negative integer. For a request with
  \<open>n \<ge> 1\<close> images whose layout is computed, the canvas height is the sum of the heights of
  the images after normalisation plus \<open>spacing \<times> (n - 1)\<close>. With one image the spacing term
  is 0.
\<close>

theorem canvasHeight_sum_and_spacing:
  assumes "layoutImages rz nw twp au sp al (length imgs) imgs = Inr L" and "0 \<le> sp"
  shows "1 \<le> length (images L) \<and> length (images L) = length imgs \<and>
         canvasHeight L =
           sum_list (map (\<lambda>i. height (snd i)) (images L))
           + sp * (int (length (images L)) - 1) \<and>
         (length (images L) = 1 \<longrightarrow>
            canvasHeight L = sum_list (map (\<lambda>i. height (snd i)) (images L)))"
proof -
  note D = layoutImages_InrD [OF assms(1)]
  from D(1,2) have n: "1 \<le> length (images L)" by (cases imgs) auto
  from D(2,3) have "canvasHeight L =
      sum_list (map (\<lambda>i. height (snd i)) (images L)) + max 0 ((int (length (images L)) - 1) * sp)"
    by (simp add: canvasHeightOf_def foldl_heights)
  with n D(2) assms(2) show ?thesis
    by (simp add: clamp_spacing)
qed

text \<open>
  The theorem at the two pictures 100 \<times> 50 and 100 \<times> 80 with spacing 10 (canvas height
  140) and at the first picture alone (canvas height 50).
\<close>

theorem canvasHeight_sum_and_spacing_witness:
  "layoutImages sizeResize True 0 True 10 Left 2
     [(\<lparr>width = 100, height = 50\<rparr>, \<lparr>width = 100, height = 50\<rparr>),
      (\<lparr>width = 100, height = 80\<rparr>, \<lparr>width = 100, height = 80\<rparr>)]
   = Inr \<lparr>canvasWidth = 100, canvasHeight = 140,
          images = [(\<lparr>width = 100, height = 50\<rparr>, \<lparr>width = 100, height = 50\<rparr>),
                    (\<lparr>width = 100, height = 80\<rparr>, \<lparr>width = 100, height = 80\<rparr>)],
          composites = [\<lparr>input = \<lparr>width = 100, height = 50\<rparr>, top = 0, left = 0\<rparr>,
                        \<lparr>input = \<lparr>width = 100, height = 80\<rparr>, top = 60, left = 0\<rparr>]\<rparr>
   \<and> (0::int) \<le> 10
   \<and> (140::int) = (50 + 80) + 10 * (2 - 1)
   \<and> layoutImages sizeResize True 0 True 10 Left 1
        [(\<lparr>width = 100, height = 50\<rparr>, \<lparr>width = 100, height = 50\<rparr>)]
      = Inr \<lparr>canvasWidth = 100, canvasHeight = 50,
             images = [(\<lparr>width = 100, height = 50\<rparr>, \<lparr>width = 100, height = 50\<rparr>)],
             composites = [\<lparr>input = \<lparr>width = 100, height = 50\<rparr>, top = 0, left = 0\<rparr>]\<rparr>"
proof -
  let ?a = "(\<lparr>width = 100, height = 50\<rparr>, \<lparr>width = 100, height = 50\<rparr>)"
  let ?b = "(\<lparr>width = 100, height = 80\<rparr>, \<lparr>width = 100, height = 80\<rparr>)"
  let ?c0 = "\<lparr>input = \<lparr>width = 100, height = 50\<rparr>, top = 0, left = 0\<rparr>"
  let ?c1 = "\<lparr>input = \<lparr>width = 100, height = 80\<rparr>, top = 60, left = 0\<rparr>"
  let ?L2 = "\<lparr>canvasWidth = 100, canvasHeight = 140, images = [?a, ?b], composites = [?c0, ?c1]\<rparr>"
  let ?L1 = "\<lparr>canvasWidth = 100, canvasHeight = 50, images = [?a], composites = [?c0]\<rparr>"
  have two: "layoutImages sizeResize True 0 True 10 Left 2 [?a, ?b] = Inr ?L2"
    by (simp add: layoutImages_def targetWidthOf_def canvasHeightOf_def)
  have one: "layoutImages sizeResize True 0 True 10 Left 1 [?a] = Inr ?L1"
    by (simp add: layoutImages_def targetWidthOf_def canvasHeightOf_def)
  have two': "layoutImages sizeResize True 0 True 10 Left (length [?a, ?b]) [?a, ?b] = Inr ?L2"
    using two by (simp add: numeral_2_eq_2)
  have one': "layoutImages sizeResize True 0 True 10 Left (length [?a]) [?a] = Inr ?L1"
    using one by simp
  have sp: "(0::int) \<le> 10" by simp
  note T2 = canvasHeight_sum_and_spacing [OF two' sp, THEN conjunct2, THEN conjunct2, THEN conjunct1]
  note T1 = canvasHeight_sum_and_spacing [OF one' sp, THEN conjunct2, THEN conjunct2, THEN conjunct2]
  have "canvasHeight ?L1 = sum_list (map (\<lambda>i. height (snd i)) (images ?L1))"
    by (rule T1 [THEN mp]) simp
  from T2 have h: "(140::int) = (50 + 80) + 10 * (2 - 1)"
    by simp
  show ?thesis
    by (rule conjI [OF two conjI [OF sp conjI [OF h one]]])
qed

lemma layout_canvasHeight:
  assumes "layoutImages rz nw twp au sp al (length imgs) imgs = Inr L"
  shows "canvasHeight L = sum_list (map (\<lambda>i. height (snd i)) (images L))
           + (if 0 \<le> sp then sp * (int (length imgs) - 1) else 0)"
proof -
  note D = layoutImages_InrD [OF assms]
  from D(1) have "1 \<le> length imgs" by (cases imgs) auto
  with D(3) show ?thesis
    by (simp add: canvasHeightOf_def foldl_heights clamp_spacing)
qed

section \<open>The vertical offsets (claim C2)\<close>

text \<open>
  Claim C2. The top offset of the image \<open>k\<close> is the sum of the heights of the images
  before it plus one spacing for each of them: the running total starts at 0 and advances by
  the height and the spacing after every image but the last. The spacing of a request is a
  non-negative integer and heights are positive, so the top offsets do not decrease in input
  order. For two images of heights 50 and 80 with spacing 10 the tops are 0 and 60 and the
  canvas height is 140.
\<close>

theorem top_offsets_cumulative:
  assumes "layoutImages rz nw twp au sp al (length imgs) imgs = Inr L"
  shows "length (composites L) = length (images L) \<and>
         (\<forall>k<length (images L).
            top (composites L ! k)
              = sum_list (map (\<lambda>i. height (snd i)) (take k (images L))) + int k * sp) \<and>
         (0 \<le> sp \<and> (\<forall>i\<in>set (images L). 0 \<le> height (snd i)) \<longrightarrow>
            (\<forall>j k. j \<le> k \<and> k < length (images L) \<longrightarrow>
               top (composites L ! j) \<le> top (composites L ! k))) \<and>
         (map (\<lambda>i. height (snd i)) (images L) = [50, 80] \<and> sp = 10 \<longrightarrow>
            map top (composites L) = [0, 60] \<and> canvasHeight L = 140)"
proof -
  note D = layoutImages_InrD [OF assms]
  have len: "length (composites L) = length (images L)"
    by (simp add: D(4) length_placeImages)
  have tops: "\<forall>k<length (images L).
      top (composites L ! k) = sum_list (map (\<lambda>i. height (snd i)) (take k (images L))) + int k * sp"
    by (simp add: D(4) top_placeImages)
  have mono: "0 \<le> sp \<and> (\<forall>i\<in>set (images L). 0 \<le> height (snd i)) \<longrightarrow>
      (\<forall>j k. j \<le> k \<and> k < length (images L) \<longrightarrow> top (composites L ! j) \<le> top (composites L ! k))"
    unfolding D(4) by (blast intro: sorted_tops)
  have ex: "map (\<lambda>i. height (snd i)) (images L) = [50, 80] \<and> sp = 10 \<longrightarrow>
      map top (composites L) = [0, 60] \<and> canvasHeight L = 140"
  proof (intro impI, elim conjE)
    assume h: "map (\<lambda>i. height (snd i)) (images L) = [50, 80]" and sp: "sp = 10"
    from h obtain x y where xy: "images L = [x, y]" "height (snd x) = 50" "height (snd y) = 80"
      by auto
    from xy(1) D(2) have "length imgs = 2" by simp
    with xy sp D(3,4) show "map top (composites L) = [0, 60] \<and> canvasHeight L = 140"
      by (cases x; cases y) (simp add: canvasHeightOf_def)
  qed
  show ?thesis
    by (rule conjI [OF len conjI [OF tops conjI [OF mono ex]]])
qed

text \<open>The theorem at the example of the spec: pictures 100 \<times> 50 and 100 \<times> 80, spacing 10.\<close>

theorem top_offsets_cumulative_witness:
  "layoutImages sizeResize True 0 True 10 Left 2
     [(\<lparr>width = 100, height = 50\<rparr>, \<lparr>width = 100, height = 50\<rparr>),
      (\<lparr>width = 100, height = 80\<rparr>, \<lparr>width = 100, height = 80\<rparr>)]
   = Inr \<lparr>canvasWidth = 100, canvasHeight = 140,
          images = [(\<lparr>width = 100, height = 50\<rparr>, \<lparr>width = 100, height = 50\<rparr>),
                    (\<lparr>width = 100, height = 80\<rparr>, \<lparr>width = 100, height = 80\<rparr>)],
          composites = [\<lparr>input = \<lparr>width = 100, height = 50\<rparr>, top = 0, left = 0\<rparr>,
                        \<lparr>input = \<lparr>width = 100, height = 80\<rparr>, top = 60, left = 0\<rparr>]\<rparr>
   \<and> (0::int) \<le> 10 \<and> (0::int) \<le> 50 \<and> (0::int) \<le> 80
   \<and> top \<lparr>input = \<lparr>width = 100, height = 80\<rparr>, top = 60, left = 0\<rparr> = 50 + int 1 * 10
   \<and> top \<lparr>input = \<lparr>width = 100, height = 50\<rparr>, top = 0, left = 0\<rparr>
       \<le> top \<lparr>input = \<lparr>width = 100, height = 80\<rparr>, top = 60, left = 0\<rparr>"
proof -
  let ?a = "(\<lparr>width = 100, height = 50\<rparr>, \<lparr>width = 100, height = 50\<rparr>)"
  let ?b = "(\<lparr>width = 100, height = 80\<rparr>, \<lparr>width = 100, height = 80\<rparr>)"
  let ?c0 = "\<lparr>input = \<lparr>width = 100, height = 50\<rparr>, top = 0, left = 0\<rparr>"
  let ?c1 = "\<lparr>input = \<lparr>width = 100, height = 80\<rparr>, top = 60, left = 0\<rparr>"
  let ?L = "\<lparr>canvasWidth = 100, canvasHeight = 140, images = [?a, ?b], composites = [?c0, ?c1]\<rparr>"
  have run: "layoutImages sizeResize True 0 True 10 Left 2 [?a, ?b] = Inr ?L"
    by (simp add: layoutImages_def targetWidthOf_def canvasHeightOf_def)
  have run': "layoutImages sizeResize True 0 True 10 Left (length [?a, ?b]) [?a, ?b] = Inr ?L"
    using run by (simp add: numeral_2_eq_2)
  note offsets = top_offsets_cumulative [OF run', THEN conjunct2, THEN conjunct1]
  note ordered = top_offsets_cumulative [OF run', THEN conjunct2, THEN conjunct2, THEN conjunct1]
  have h1: "(0::int) \<le> 10" and h2: "(0::int) \<le> 50" and h3: "(0::int) \<le> 80"
    by simp_all
  have "top (composites ?L ! 1)
          = sum_list (map (\<lambda>i. height (snd i)) (take 1 (images ?L))) + int 1 * 10"
    by (rule offsets [THEN spec, THEN mp]) simp
  then have second: "top ?c1 = 50 + int 1 * 10"
    by simp
  have all: "\<forall>j k. j \<le> k \<and> k < length (images ?L)
          \<longrightarrow> top (composites ?L ! j) \<le> top (composites ?L ! k)"
    by (rule ordered [THEN mp]) simp
  have "top (composites ?L ! 0) \<le> top (composites ?L ! 1)"
    by (rule all [THEN spec, THEN spec, THEN mp]) simp
  then have mono: "top ?c0 \<le> top ?c1"
    by simp
  show ?thesis
    by (rule conjI [OF run conjI [OF h1 conjI [OF h2 conjI [OF h3 conjI [OF second mono]]]]])
qed

section \<open>The horizontal offsets (claim C3)\<close>

text \<open>
  Claim C3. An image of width \<open>w\<close> placed on a canvas of width \<open>W\<close> has the horizontal
  offset 0 when the alignment is left, \<open>floor ((W - w) / 2)\<close> when it is center and \<open>W - w\<close>
  when it is right.
\<close>

theorem horizontal_offset_by_alignment:
  assumes "layoutImages rz nw twp au sp al n imgs = Inr L" and "k < length (images L)"
  shows "left (composites L ! k) =
           (case al of
              Left \<Rightarrow> 0
            | Center \<Rightarrow> \<lfloor>real_of_int (canvasWidth L - width (snd (images L ! k))) / 2\<rfloor>
            | Right \<Rightarrow> canvasWidth L - width (snd (images L ! k)))"
proof -
  have "left (composites L ! k) = leftOffset al (canvasWidth L) (width (snd (images L ! k)))"
    using layoutImages_InrD(4) [OF assms(1)] assms(2) by (simp add: left_placeImages)
  moreover have "(x::int) div 2 = \<lfloor>real_of_int x / 2\<rfloor>" for x
    using floor_divide_of_int_eq [of x 2, where ?'a = real] by simp
  ultimately show ?thesis by (cases al) simp_all
qed

text \<open>A picture of width 61 centred on a canvas of width 100 is placed at 19.\<close>

theorem horizontal_offset_by_alignment_witness:
  "layoutImages sizeResize False 0 True 0 Center 2
     [(\<lparr>width = 100, height = 50\<rparr>, \<lparr>width = 100, height = 50\<rparr>),
      (\<lparr>width = 61, height = 30\<rparr>, \<lparr>width = 61, height = 30\<rparr>)]
   = Inr \<lparr>canvasWidth = 100, canvasHeight = 80,
          images = [(\<lparr>width = 100, height = 50\<rparr>, \<lparr>width = 100, height = 50\<rparr>),
                    (\<lparr>width = 61, height = 30\<rparr>, \<lparr>width = 61, height = 30\<rparr>)],
          composites = [\<lparr>input = \<lparr>width = 100, height = 50\<rparr>, top = 0, left = 0\<rparr>,
                        \<lparr>input = \<lparr>width = 61, height = 30\<rparr>, top = 50, left = 19\<rparr>]\<rparr>
   \<and> (19::int) = \<lfloor>real_of_int (100 - 61) / 2\<rfloor>"
proof -
  let ?a = "(\<lparr>width = 100, height = 50\<rparr>, \<lparr>width = 100, height = 50\<rparr>)"
  let ?b = "(\<lparr>width = 61, height = 30\<rparr>, \<lparr>width = 61, height = 30\<rparr>)"
  let ?L = "\<lparr>canvasWidth = 100, canvasHeight = 80, images = [?a, ?b],
             composites = [\<lparr>input = fst ?a, top = 0, left = 0\<rparr>, \<lparr>input = fst ?b, top = 50, left = 19\<rparr>]\<rparr>"
  have run: "layoutImages sizeResize False 0 True 0 Center 2 [?a, ?b] = Inr ?L"
    by (simp add: layoutImages_def targetWidthOf_def canvasHeightOf_def)
  have "left (composites ?L ! 1) =
          (case Center of
              Left \<Rightarrow> 0
            | Center \<Rightarrow> \<lfloor>real_of_int (canvasWidth ?L - width (snd (images ?L ! 1))) / 2\<rfloor>
            | Right \<Rightarrow> canvasWidth ?L - width (snd (images ?L ! 1)))"
    by (rule horizontal_offset_by_alignment [OF run]) simp
  then show ?thesis using run by simp
qed

section \<open>Negative spacing (claim C10)\<close>

lemma last_placeImages:
  assumes "imgs \<noteq> []"
  shows "top (last (placeImages al cw sp t imgs)) + height (snd (last imgs))
         = t + sum_list (map (\<lambda>i. height (snd i)) imgs) + (int (length imgs) - 1) * sp"
proof -
  let ?k = "length imgs - 1"
  let ?f = "\<lambda>i::'a image. height (snd i)"
  from assms have k: "?k < length imgs" by (cases imgs) auto
  from assms have "placeImages al cw sp t imgs \<noteq> []"
    by (cases imgs) auto
  then have nth: "last (placeImages al cw sp t imgs) = placeImages al cw sp t imgs ! ?k"
    by (simp add: last_conv_nth length_placeImages)
  from assms obtain ys y where imgs: "imgs = ys @ [y]"
    by (cases imgs rule: rev_cases) auto
  then have split: "sum_list (map ?f imgs) = sum_list (map ?f (take ?k imgs)) + ?f (last imgs)"
    by simp
  from k have "int ?k = int (length imgs) - 1" by simp
  with nth split top_placeImages [OF k, of al cw sp t] show ?thesis by simp
qed

lemma rowsOverlap_iff:
  "rowsOverlap t1 h1 t2 h2 \<longleftrightarrow> (\<exists>y. t1 \<le> y \<and> y < t1 + h1 \<and> t2 \<le> y \<and> y < t2 + h2)"
proof
  assume "rowsOverlap t1 h1 t2 h2"
  then have "t1 \<le> max t1 t2 \<and> max t1 t2 < t1 + h1 \<and> t2 \<le> max t1 t2 \<and> max t1 t2 < t2 + h2"
    by (simp add: rowsOverlap_def)
  then show "\<exists>y. t1 \<le> y \<and> y < t1 + h1 \<and> t2 \<le> y \<and> y < t2 + h2" ..
next
  assume "\<exists>y. t1 \<le> y \<and> y < t1 + h1 \<and> t2 \<le> y \<and> y < t2 + h2"
  then show "rowsOverlap t1 h1 t2 h2"
    by (auto simp: rowsOverlap_def)
qed

lemma next_top:
  assumes "Suc k < length imgs"
  shows "top (placeImages al cw sp t imgs ! Suc k)
         = top (placeImages al cw sp t imgs ! k) + height (snd (imgs ! k)) + sp"
proof -
  from assms have "take (Suc k) imgs = take k imgs @ [imgs ! k]"
    by (simp add: take_Suc_conv_app_nth)
  with assms show ?thesis
    by (simp add: top_placeImages algebra_simps)
qed

lemma rowsOverlap_next:
  assumes "sp < 0" and "0 < h" and "0 < h'"
  shows "rowsOverlap t h (t + h + sp) h' \<longleftrightarrow> - sp < h + h'"
  using assms by (auto simp: rowsOverlap_def)

text \<open>
  Claim C10, as the code has it. The spacing is not validated: a layout that is computed for
  one spacing is computed for every other. With at least two images and a negative spacing
  the canvas height is the sum of the heights alone, while every step of the placement adds
  the negative spacing: the bottom edge of the last image (its top plus its height) lies
  strictly above the bottom of the canvas, and every image but the first starts above the
  bottom edge of the image before it. Two consecutive images of positive heights overlap
  vertically exactly when the spacing, taken positive, is less than the sum of their two
  heights; a larger step back puts the later image wholly above the earlier one. With a
  spacing that is not negative the bottom edge of the last image is the canvas height.
\<close>

theorem negative_spacing_overlap:
  assumes "layoutImages rz nw twp au sp al (length imgs) imgs = Inr L"
  shows "(\<forall>sp'. \<exists>L'. layoutImages rz nw twp au sp' al (length imgs) imgs = Inr L') \<and>
         (sp < 0 \<and> 2 \<le> length imgs \<longrightarrow>
            canvasHeight L = sum_list (map (\<lambda>i. height (snd i)) (images L)) \<and>
            top (last (composites L)) + height (snd (last (images L))) < canvasHeight L \<and>
            (\<forall>k. Suc k < length (images L) \<longrightarrow>
               top (composites L ! Suc k)
                 < top (composites L ! k) + height (snd (images L ! k))) \<and>
            (\<forall>k. Suc k < length (images L) \<and> 0 < height (snd (images L ! k)) \<and>
                  0 < height (snd (images L ! Suc k)) \<longrightarrow>
               (rowsOverlap (top (composites L ! k)) (height (snd (images L ! k)))
                            (top (composites L ! Suc k)) (height (snd (images L ! Suc k)))
                \<longleftrightarrow> - sp < height (snd (images L ! k)) + height (snd (images L ! Suc k))))) \<and>
         (0 \<le> sp \<longrightarrow>
            top (last (composites L)) + height (snd (last (images L))) = canvasHeight L)"
proof -
  note D = layoutImages_InrD [OF assms]
  note H = layout_canvasHeight [OF assms]
  from D(1,2) have ne: "images L \<noteq> []" by auto
  have bottom: "top (last (composites L)) + height (snd (last (images L)))
      = sum_list (map (\<lambda>i. height (snd i)) (images L)) + (int (length imgs) - 1) * sp"
    using last_placeImages [OF ne, of al "canvasWidth L" sp 0] D(2,4) by simp
  have step: "top (composites L ! Suc k)
      = top (composites L ! k) + height (snd (images L ! k)) + sp"
    if "Suc k < length (images L)" for k
    unfolding D(4) using that by (rule next_top)
  have a: "\<forall>sp'. \<exists>L'. layoutImages rz nw twp au sp' al (length imgs) imgs = Inr L'"
    using layoutImages_spacing_irrelevant [OF assms] by blast
  have b': "sp < 0 \<and> 2 \<le> length imgs \<longrightarrow>
            canvasHeight L = sum_list (map (\<lambda>i. height (snd i)) (images L)) \<and>
            top (last (composites L)) + height (snd (last (images L))) < canvasHeight L \<and>
            (\<forall>k. Suc k < length (images L) \<longrightarrow>
               top (composites L ! Suc k)
                 < top (composites L ! k) + height (snd (images L ! k))) \<and>
            (\<forall>k. Suc k < length (images L) \<and> 0 < height (snd (images L ! k)) \<and>
                  0 < height (snd (images L ! Suc k)) \<longrightarrow>
               (rowsOverlap (top (composites L ! k)) (height (snd (images L ! k)))
                            (top (composites L ! Suc k)) (height (snd (images L ! Suc k)))
                \<longleftrightarrow> - sp < height (snd (images L ! k)) + height (snd (images L ! Suc k))))"
  proof (intro impI, elim conjE)
    assume neg: "sp < 0" and two: "2 \<le> length imgs"
    from neg H have h: "canvasHeight L = sum_list (map (\<lambda>i. height (snd i)) (images L))"
      by simp
    from two have "0 < int (length imgs) - 1" by simp
    with neg have "(int (length imgs) - 1) * sp < 0" by (simp add: mult_pos_neg)
    with bottom h have l: "top (last (composites L)) + height (snd (last (images L))) < canvasHeight L"
      by simp
    have above: "\<forall>k. Suc k < length (images L) \<longrightarrow>
        top (composites L ! Suc k) < top (composites L ! k) + height (snd (images L ! k))"
      using step neg by simp
    have share: "\<forall>k. Suc k < length (images L) \<and> 0 < height (snd (images L ! k)) \<and>
                  0 < height (snd (images L ! Suc k)) \<longrightarrow>
               (rowsOverlap (top (composites L ! k)) (height (snd (images L ! k)))
                            (top (composites L ! Suc k)) (height (snd (images L ! Suc k)))
                \<longleftrightarrow> - sp < height (snd (images L ! k)) + height (snd (images L ! Suc k)))"
    proof (intro allI impI, elim conjE)
      fix k
      assume k: "Suc k < length (images L)" and p1: "0 < height (snd (images L ! k))"
        and p2: "0 < height (snd (images L ! Suc k))"
      from rowsOverlap_next [OF neg p1 p2, of "top (composites L ! k)"] step [OF k]
      show "rowsOverlap (top (composites L ! k)) (height (snd (images L ! k)))
                            (top (composites L ! Suc k)) (height (snd (images L ! Suc k)))
                \<longleftrightarrow> - sp < height (snd (images L ! k)) + height (snd (images L ! Suc k))"
        by simp
    qed
    show "canvasHeight L = sum_list (map (\<lambda>i. height (snd i)) (images L)) \<and>
            top (last (composites L)) + height (snd (last (images L))) < canvasHeight L \<and>
            (\<forall>k. Suc k < length (images L) \<longrightarrow>
               top (composites L ! Suc k)
                 < top (composites L ! k) + height (snd (images L ! k))) \<and>
            (\<forall>k. Suc k < length (images L) \<and> 0 < height (snd (images L ! k)) \<and>
                  0 < height (snd (images L ! Suc k)) \<longrightarrow>
               (rowsOverlap (top (composites L ! k)) (height (snd (images L ! k)))
                            (top (composites L ! Suc k)) (height (snd (images L ! Suc k)))
                \<longleftrightarrow> - sp < height (snd (images L ! k)) + height (snd (images L ! Suc k))))"
      by (rule conjI [OF h conjI [OF l conjI [OF above share]]])
  qed
  have c': "0 \<le> sp \<longrightarrow>
      top (last (composites L)) + height (snd (last (images L))) = canvasHeight L"
    using bottom H D(2) by (simp add: mult.commute)
  show ?thesis
    by (rule conjI [OF a conjI [OF b' c']])
qed

text \<open>
  The theorem at two pictures of heights 50 and 80: with spacing \<open>-10\<close> the canvas is 130 high,
  the second picture starts at 40, ends at 120 and overlaps the first; with spacing 10 it
  ends at 140, the canvas height.
\<close>

theorem negative_spacing_overlap_witness:
  "layoutImages sizeResize True 0 True (- 10) Left 2
     [(\<lparr>width = 100, height = 50\<rparr>, \<lparr>width = 100, height = 50\<rparr>),
      (\<lparr>width = 100, height = 80\<rparr>, \<lparr>width = 100, height = 80\<rparr>)]
   = Inr \<lparr>canvasWidth = 100, canvasHeight = 130,
          images = [(\<lparr>width = 100, height = 50\<rparr>, \<lparr>width = 100, height = 50\<rparr>),
                    (\<lparr>width = 100, height = 80\<rparr>, \<lparr>width = 100, height = 80\<rparr>)],
          composites = [\<lparr>input = \<lparr>width = 100, height = 50\<rparr>, top = 0, left = 0\<rparr>,
                        \<lparr>input = \<lparr>width = 100, height = 80\<rparr>, top = 40, left = 0\<rparr>]\<rparr>
   \<and> (- 10 :: int) < 0 \<and> (2::nat) \<le> 2
   \<and> (40::int) + 80 < 130 \<and> (40::int) < 0 + 50
   \<and> rowsOverlap 0 50 40 80
   \<and> layoutImages sizeResize True 0 True 10 Left 2
     [(\<lparr>width = 100, height = 50\<rparr>, \<lparr>width = 100, height = 50\<rparr>),
      (\<lparr>width = 100, height = 80\<rparr>, \<lparr>width = 100, height = 80\<rparr>)]
   = Inr \<lparr>canvasWidth = 100, canvasHeight = 140,
          images = [(\<lparr>width = 100, height = 50\<rparr>, \<lparr>width = 100, height = 50\<rparr>),
                    (\<lparr>width = 100, height = 80\<rparr>, \<lparr>width = 100, height = 80\<rparr>)],
          composites = [\<lparr>input = \<lparr>width = 100, height = 50\<rparr>, top = 0, left = 0\<rparr>,
                        \<lparr>input = \<lparr>width = 100, height = 80\<rparr>, top = 60, left = 0\<rparr>]\<rparr>
   \<and> (0::int) \<le> 10 \<and> (60::int) + 80 = 140"
proof -
  let ?a = "(\<lparr>width = 100, height = 50\<rparr>, \<lparr>width = 100, height = 50\<rparr>)"
  let ?b = "(\<lparr>width = 100, height = 80\<rparr>, \<lparr>width = 100, height = 80\<rparr>)"
  let ?c0 = "\<lparr>input = \<lparr>width = 100, height = 50\<rparr>, top = 0, left = 0\<rparr>"
  let ?n1 = "\<lparr>input = \<lparr>width = 100, height = 80\<rparr>, top = 40, left = 0\<rparr>"
  let ?p1 = "\<lparr>input = \<lparr>width = 100, height = 80\<rparr>, top = 60, left = 0\<rparr>"
  let ?N = "\<lparr>canvasWidth = 100, canvasHeight = 130, images = [?a, ?b], composites = [?c0, ?n1]\<rparr>"
  let ?P = "\<lparr>canvasWidth = 100, canvasHeight = 140, images = [?a, ?b], composites = [?c0, ?p1]\<rparr>"
  have neg: "layoutImages sizeResize True 0 True (- 10) Left 2 [?a, ?b] = Inr ?N"
    by (simp add: layoutImages_def targetWidthOf_def canvasHeightOf_def)
  have pos: "layoutImages sizeResize True 0 True 10 Left 2 [?a, ?b] = Inr ?P"
    by (simp add: layoutImages_def targetWidthOf_def canvasHeightOf_def)
  have neg': "layoutImages sizeResize True 0 True (- 10) Left (length [?a, ?b]) [?a, ?b] = Inr ?N"
    using neg by (simp add: numeral_2_eq_2)
  have pos': "layoutImages sizeResize True 0 True 10 Left (length [?a, ?b]) [?a, ?b] = Inr ?P"
    using pos by (simp add: numeral_2_eq_2)
  have h1: "(- 10 :: int) < 0" and h2: "(2::nat) \<le> 2" and h3: "(0::int) \<le> 10"
    by simp_all
  have hyp: "(- 10 :: int) < 0 \<and> 2 \<le> length [?a, ?b]" by simp
  note N = negative_spacing_overlap [OF neg', THEN conjunct2, THEN conjunct1, THEN mp, OF hyp]
  from N [THEN conjunct2, THEN conjunct1]
  have last: "(40::int) + 80 < 130" by simp
  have "top (composites ?N ! Suc 0) < top (composites ?N ! 0) + height (snd (images ?N ! 0))"
    by (rule N [THEN conjunct2, THEN conjunct2, THEN conjunct1, THEN spec, THEN mp]) simp
  then have above: "(40::int) < 0 + 50" by simp
  have "rowsOverlap (top (composites ?N ! 0)) (height (snd (images ?N ! 0)))
          (top (composites ?N ! Suc 0)) (height (snd (images ?N ! Suc 0)))
        \<longleftrightarrow> - (- 10) < height (snd (images ?N ! 0)) + height (snd (images ?N ! Suc 0))"
    by (rule N [THEN conjunct2, THEN conjunct2, THEN conjunct2, THEN spec, THEN mp]) simp
  then have share: "rowsOverlap 0 50 40 80" by simp
  have "top (last (composites ?P)) + height (snd (last (images ?P))) = canvasHeight ?P"
    by (rule negative_spacing_overlap [OF pos', THEN conjunct2, THEN conjunct2, THEN mp]) simp
  then have bottom: "(60::int) + 80 = 140" by simp
  show ?thesis
    by (rule conjI [OF neg conjI [OF h1 conjI [OF h2 conjI [OF last conjI [OF above
          conjI [OF share conjI [OF pos conjI [OF h3 bottom]]]]]]]])
qed

text \<open>
  Consecutive images that do not overlap: with heights 300, 10 and 10 and spacing \<open>-30\<close> the
  tops are 0, 270 and 250; the third image occupies the rows 250 to 259 and the second the
  rows 270 to 279.
\<close>

theorem consecutive_images_apart_counterexample:
  "layoutImages sizeResize True 0 True (- 30) Left 3
     [(\<lparr>width = 100, height = 300\<rparr>, \<lparr>width = 100, height = 300\<rparr>),
      (\<lparr>width = 100, height = 10\<rparr>, \<lparr>width = 100, height = 10\<rparr>),
      (\<lparr>width = 100, height = 10\<rparr>, \<lparr>width = 100, height = 10\<rparr>)]
   = Inr \<lparr>canvasWidth = 100, canvasHeight = 320,
          images = [(\<lparr>width = 100, height = 300\<rparr>, \<lparr>width = 100, height = 300\<rparr>),
                    (\<lparr>width = 100, height = 10\<rparr>, \<lparr>width = 100, height = 10\<rparr>),
                    (\<lparr>width = 100, height = 10\<rparr>, \<lparr>width = 100, height = 10\<rparr>)],
          composites = [\<lparr>input = \<lparr>width = 100, height = 300\<rparr>, top = 0, left = 0\<rparr>,
                        \<lparr>input = \<lparr>width = 100, height = 10\<rparr>, top = 270, left = 0\<rparr>,
                        \<lparr>input = \<lparr>width = 100, height = 10\<rparr>, top = 250, left = 0\<rparr>]\<rparr>
   \<and> \<not> rowsOverlap 270 10 250 10"
  by (simp add: layoutImages_def targetWidthOf_def canvasHeightOf_def rowsOverlap_def)

section \<open>Facts about the widths\<close>

lemma fold_max_ge: "(x::int) \<le> fold max xs x"
  by (induction xs arbitrary: x) (auto intro: order_trans [OF max.cobounded2])

lemma fold_max_Max: "fold max xs (x::int) = Max (set (x # xs))"
  by (rule Max.set_eq_fold [symmetric])

lemma Math_max_Some:
  assumes "Math_max ws = Some m"
  shows "ws \<noteq> []" and "m = Max (set ws)" and "m \<in> set ws" and "\<forall>w\<in>set ws. w \<le> m"
proof -
  from assms show ne: "ws \<noteq> []" by (cases ws) auto
  from assms show m: "m = Max (set ws)" by (cases ws) (simp_all only: Math_max.simps fold_max_Max option.inject option.distinct)
  from ne m show "m \<in> set ws" using Max_in [of "set ws"] by simp
  from ne m show "\<forall>w\<in>set ws. w \<le> m" by simp
qed

lemma nth_normalizeImages:
  "normalizeImages rz tw au imgs = Inr imgs' \<Longrightarrow> k < length imgs \<Longrightarrow>
   (if width (snd (imgs ! k)) \<noteq> tw
    then rz (fst (imgs ! k)) tw (\<not> au) = Inr (imgs' ! k)
    else imgs' ! k = imgs ! k)"
proof (induction imgs arbitrary: imgs' k)
  case Nil
  then show ?case by simp
next
  case (Cons x rest)
  obtain buf d where x: "x = (buf, d)" by (cases x)
  show ?case
  proof (cases k)
    case 0
    with Cons.prems show ?thesis
      by (auto simp: x split: if_splits sum.splits)
  next
    case (Suc j)
    from Cons.prems(1) obtain y rest' where imgs': "imgs' = y # rest'"
      and rest: "normalizeImages rz tw au rest = Inr rest'"
      by (auto simp: x split: if_splits sum.splits)
    from Cons.prems(2) Suc have "j < length rest" by simp
    from Cons.IH [OF rest this] show ?thesis by (simp add: Suc imgs')
  qed
qed

lemma measured_nth:
  "measured md imgs \<Longrightarrow> k < length imgs \<Longrightarrow>
   md (fst (imgs ! k)) = Inr (Some (width (snd (imgs ! k))), Some (height (snd (imgs ! k))))"
  by (simp add: measured_def list_all_length)

lemma layoutImages_width:
  assumes "layoutImages rz nw twp au sp al n imgs = Inr L"
  shows "\<exists>m. Math_max (map (\<lambda>i. width (snd i)) imgs) = Some m \<and>
             canvasWidth L = (if nw then targetWidthOf nw twp m else m) \<and>
             (if nw then normalizeImages rz (canvasWidth L) au imgs = Inr (images L)
              else images L = imgs)"
  using assms
  by (auto simp: layoutImages_def Let_def split: option.splits sum.splits if_splits)

lemma dimension_eqI: "width d = width e \<Longrightarrow> height d = height e \<Longrightarrow> d = (e::dimension)"
  by simp

lemma resized_width:
  assumes hr: "honoursResize md rz" and ms: "measured md imgs"
    and nz: "normalizeImages rz tw au imgs = Inr imgs'" and k: "k < length imgs"
  shows "width (snd (imgs' ! k)) =
           (if au \<or> tw \<le> width (snd (imgs ! k)) then tw else width (snd (imgs ! k)))"
    and "\<not> au \<Longrightarrow> width (snd (imgs ! k)) < tw \<Longrightarrow> snd (imgs' ! k) = snd (imgs ! k)"
proof -
  let ?w = "width (snd (imgs ! k))" and ?h = "height (snd (imgs ! k))"
  note N = nth_normalizeImages [OF nz k]
  note M = measured_nth [OF ms k]
  obtain data info where out: "imgs' ! k = (data, info)" by (cases "imgs' ! k")
  show "width (snd (imgs' ! k)) = (if au \<or> tw \<le> ?w then tw else ?w)"
  proof (cases "?w = tw")
    case True
    with N show ?thesis by simp
  next
    case False
    with N out have call: "rz (fst (imgs ! k)) tw (\<not> au) = Inr (data, info)" by simp
    show ?thesis
    proof (cases au)
      case True
      with call hr have "width info = tw" unfolding honoursResize_def by auto
      with True out show ?thesis by simp
    next
      case au: False
      with call have "rz (fst (imgs ! k)) tw True = Inr (data, info)" by simp
      with hr M have "if ?w < tw then info = \<lparr>width = ?w, height = ?h\<rparr> else width info = tw"
        unfolding honoursResize_def by blast
      with au out show ?thesis by (auto split: if_splits)
    qed
  qed
  show "snd (imgs' ! k) = snd (imgs ! k)" if au: "\<not> au" and lt: "?w < tw"
  proof -
    from lt N out have "rz (fst (imgs ! k)) tw (\<not> au) = Inr (data, info)" by simp
    with au have "rz (fst (imgs ! k)) tw True = Inr (data, info)" by simp
    with hr M have "if ?w < tw then info = \<lparr>width = ?w, height = ?h\<rparr> else width info = tw"
      unfolding honoursResize_def by blast
    with lt out show ?thesis by simp
  qed
qed

lemma layout_widths:
  assumes hr: "honoursResize md rz" and ms: "measured md imgs"
    and lay: "layoutImages rz nw twp au sp al n imgs = Inr L" and k: "k < length imgs"
  shows "width (snd (images L ! k)) =
           (if nw \<and> (au \<or> canvasWidth L \<le> width (snd (imgs ! k))) then canvasWidth L
            else width (snd (imgs ! k)))"
    and "\<not> au \<Longrightarrow> width (snd (imgs ! k)) < canvasWidth L \<Longrightarrow> snd (images L ! k) = snd (imgs ! k)"
    and "\<not> nw \<Longrightarrow> width (snd (imgs ! k)) \<le> canvasWidth L"
proof -
  from layoutImages_width [OF lay] obtain m where
    m: "Math_max (map (\<lambda>i. width (snd i)) imgs) = Some m"
    and cw: "canvasWidth L = (if nw then targetWidthOf nw twp m else m)"
    and im: "if nw then normalizeImages rz (canvasWidth L) au imgs = Inr (images L) else images L = imgs"
    by blast
  show "width (snd (images L ! k)) =
           (if nw \<and> (au \<or> canvasWidth L \<le> width (snd (imgs ! k))) then canvasWidth L
            else width (snd (imgs ! k)))"
  proof (cases nw)
    case True
    with im have "normalizeImages rz (canvasWidth L) au imgs = Inr (images L)" by simp
    from resized_width(1) [OF hr ms this k] True show ?thesis by simp
  next
    case False
    with im show ?thesis by simp
  qed
  show "snd (images L ! k) = snd (imgs ! k)" if "\<not> au" "width (snd (imgs ! k)) < canvasWidth L"
  proof (cases nw)
    case True
    with im have "normalizeImages rz (canvasWidth L) au imgs = Inr (images L)" by simp
    from resized_width(2) [OF hr ms this k that] show ?thesis .
  next
    case False
    with im show ?thesis by simp
  qed
  show "width (snd (imgs ! k)) \<le> canvasWidth L" if "\<not> nw"
  proof -
    from k have "width (snd (imgs ! k)) \<in> set (map (\<lambda>i. width (snd i)) imgs)" by auto
    with Math_max_Some(4) [OF m] have "width (snd (imgs ! k)) \<le> m" by blast
    with cw that show ?thesis by simp
  qed
qed

lemma honoursResize_sizeResize: "honoursResize sizeMetadata sizeResize"
  unfolding honoursResize_def sizeMetadata_def sizeResize_def
  by (auto simp: Let_def split: if_splits)

lemma fetchImages_measured:
  "fetchImages c s i bkt keys = Inr imgs \<Longrightarrow> measured (metadata c) imgs \<and> length imgs = length keys"
proof (induction keys arbitrary: imgs)
  case Nil
  then show ?case by (simp add: measured_def)
next
  case (Cons k ks)
  from Cons.prems obtain buffer w h rest where
    "metadata c buffer = Inr (Some w, Some h)" "fetchImages c s i bkt ks = Inr rest"
    "imgs = (buffer, \<lparr>width = w, height = h\<rparr>) # rest"
    by (auto split: sum.splits option.splits if_splits)
  with Cons.IH [of rest] show ?case by (simp add: measured_def)
qed

lemma measured_size: "measured sizeMetadata [(d1, d1), (d2, d2)]"
  by (simp add: measured_def sizeMetadata_def)

section \<open>Width normalisation (claims C4 and C5)\<close>

text \<open>
  Claim C4, as the code has it. With \<open>normalizeWidth\<close> set and \<open>targetWidth\<close> 0 the canvas
  width is the greatest width among the source images. Every output image has the width of
  the canvas when \<open>allowUpscale\<close> is set; when it is not, the images are resized with
  \<open>withoutEnlargement\<close> and keep their width, so that a narrower image stays narrower than
  the canvas. No output image is wider than the canvas. The resize is assumed to honour
  its contract, and the images to carry the sizes the metadata reader gave, as the images of
  the fetch loop do (\<open>fetchImages_measured\<close>).
\<close>

theorem normalized_canvas_width:
  assumes "honoursResize md rz" and "measured md imgs"
    and "layoutImages rz True 0 au sp al n imgs = Inr L"
  shows "canvasWidth L = Max (set (map (\<lambda>i. width (snd i)) imgs)) \<and>
         length (images L) = length imgs \<and>
         (\<forall>k<length imgs.
            width (snd (images L ! k)) = (if au then canvasWidth L else width (snd (imgs ! k))) \<and>
            width (snd (images L ! k)) \<le> canvasWidth L)"
proof -
  from layoutImages_width [OF assms(3)] obtain m where
    m: "Math_max (map (\<lambda>i. width (snd i)) imgs) = Some m"
    and cw: "canvasWidth L = m"
    by (auto simp: targetWidthOf_def)
  from m cw have mx: "canvasWidth L = Max (set (map (\<lambda>i. width (snd i)) imgs))"
    using Math_max_Some(2) by blast
  have each: "width (snd (images L ! k)) = (if au then canvasWidth L else width (snd (imgs ! k))) \<and>
            width (snd (images L ! k)) \<le> canvasWidth L" if k: "k < length imgs" for k
  proof -
    from k have "width (snd (imgs ! k)) \<in> set (map (\<lambda>i. width (snd i)) imgs)" by auto
    with Math_max_Some(4) [OF m] cw have le: "width (snd (imgs ! k)) \<le> canvasWidth L" by blast
    from layout_widths(1) [OF assms k] le show ?thesis by auto
  qed
  from mx each layoutImages_InrD(2) [OF assms(3)] show ?thesis by blast
qed

text \<open>
  The theorem at the in-memory backend and pictures of 100 \<times> 50 and 60 \<times> 30, with
  \<open>allowUpscale\<close> set: the second picture is enlarged to 100 \<times> 50.
\<close>

theorem normalized_canvas_width_witness:
  "honoursResize sizeMetadata sizeResize
   \<and> measured sizeMetadata
        [(\<lparr>width = 100, height = 50\<rparr>, \<lparr>width = 100, height = 50\<rparr>),
         (\<lparr>width = 60, height = 30\<rparr>, \<lparr>width = 60, height = 30\<rparr>)]
   \<and> layoutImages sizeResize True 0 True 0 Left 2
        [(\<lparr>width = 100, height = 50\<rparr>, \<lparr>width = 100, height = 50\<rparr>),
         (\<lparr>width = 60, height = 30\<rparr>, \<lparr>width = 60, height = 30\<rparr>)]
      = Inr \<lparr>canvasWidth = 100, canvasHeight = 100,
             images = [(\<lparr>width = 100, height = 50\<rparr>, \<lparr>width = 100, height = 50\<rparr>),
                       (\<lparr>width = 100, height = 50\<rparr>, \<lparr>width = 100, height = 50\<rparr>)],
             composites = [\<lparr>input = \<lparr>width = 100, height = 50\<rparr>, top = 0, left = 0\<rparr>,
                           \<lparr>input = \<lparr>width = 100, height = 50\<rparr>, top = 50, left = 0\<rparr>]\<rparr>
   \<and> Max (set [100, 60]) = (100::int)
   \<and> width (snd (images
         \<lparr>canvasWidth = 100, canvasHeight = 100,
          images = [(\<lparr>width = 100, height = 50\<rparr>, \<lparr>width = 100, height = 50\<rparr>),
                    (\<lparr>width = 100, height = 50\<rparr>, \<lparr>width = 100, height = 50\<rparr>)],
          composites = [\<lparr>input = \<lparr>width = 100, height = 50\<rparr>, top = 0, left = 0\<rparr>,
                        \<lparr>input = \<lparr>width = 100, height = 50\<rparr>, top = 50, left = 0\<rparr>]\<rparr> ! 1))
       = canvasWidth
         \<lparr>canvasWidth = 100, canvasHeight = 100,
          images = [(\<lparr>width = 100, height = 50\<rparr>, \<lparr>width = 100, height = 50\<rparr>),
                    (\<lparr>width = 100, height = 50\<rparr>, \<lparr>width = 100, height = 50\<rparr>)],
          composites = [\<lparr>input = \<lparr>width = 100, height = 50\<rparr>, top = 0, left = 0\<rparr>,
                        \<lparr>input = \<lparr>width = 100, height = 50\<rparr>, top = 50, left = 0\<rparr>]\<rparr>"
proof -
  let ?a = "(\<lparr>width = 100, height = 50\<rparr>, \<lparr>width = 100, height = 50\<rparr>)"
  let ?b = "(\<lparr>width = 60, height = 30\<rparr>, \<lparr>width = 60, height = 30\<rparr>)"
  let ?L = "\<lparr>canvasWidth = 100, canvasHeight = 100, images = [?a, ?a],
             composites = [\<lparr>input = \<lparr>width = 100, height = 50\<rparr>, top = 0, left = 0\<rparr>, \<lparr>input = \<lparr>width = 100, height = 50\<rparr>, top = 50, left = 0\<rparr>]\<rparr>"
  have hr: "honoursResize sizeMetadata sizeResize"
    by (rule honoursResize_sizeResize)
  have ms: "measured sizeMetadata [?a, ?b]"
    by (rule measured_size)
  have run: "layoutImages sizeResize True 0 True 0 Left 2 [?a, ?b] = Inr ?L"
    by (simp add: layoutImages_def targetWidthOf_def canvasHeightOf_def sizeResize_def Let_def)
  note T = normalized_canvas_width [OF hr ms run]
  have "canvasWidth ?L = Max (set (map (\<lambda>i. width (snd i)) [?a, ?b]))"
    by (rule T [THEN conjunct1])
  then have mx: "Max (set [100, 60]) = (100::int)" by simp
  have "width (snd (images ?L ! 1))
          = (if True then canvasWidth ?L else width (snd ([?a, ?b] ! 1))) \<and>
        width (snd (images ?L ! 1)) \<le> canvasWidth ?L"
    by (rule T [THEN conjunct2, THEN conjunct2, THEN spec, THEN mp]) simp
  then have same: "width (snd (images ?L ! 1)) = canvasWidth ?L" by simp
  show ?thesis
    by (intro conjI) (rule hr, rule ms, rule run, rule mx, rule same)
qed

text \<open>
  Without \<open>allowUpscale\<close> the same request leaves the second picture at the width 60 on a
  canvas of width 100.
\<close>

theorem unequal_widths_counterexample:
  "layoutImages sizeResize True 0 False 0 Left 2
        [(\<lparr>width = 100, height = 50\<rparr>, \<lparr>width = 100, height = 50\<rparr>),
         (\<lparr>width = 60, height = 30\<rparr>, \<lparr>width = 60, height = 30\<rparr>)]
      = Inr \<lparr>canvasWidth = 100, canvasHeight = 80,
             images = [(\<lparr>width = 100, height = 50\<rparr>, \<lparr>width = 100, height = 50\<rparr>),
                       (\<lparr>width = 60, height = 30\<rparr>, \<lparr>width = 60, height = 30\<rparr>)],
             composites = [\<lparr>input = \<lparr>width = 100, height = 50\<rparr>, top = 0, left = 0\<rparr>,
                           \<lparr>input = \<lparr>width = 60, height = 30\<rparr>, top = 50, left = 0\<rparr>]\<rparr>
   \<and> (60::int) \<noteq> 100"
  by (simp add: layoutImages_def targetWidthOf_def canvasHeightOf_def sizeResize_def Let_def)

text \<open>
  Claim C5. With \<open>allowUpscale\<close> false no image is enlarged: the width of every placed image
  is at most the width of its source and at most the canvas width, a source narrower than
  the canvas keeps its dimensions, and the horizontal offset is computed from the width of
  the placed image.
\<close>

theorem no_enlargement_without_upscale:
  assumes "honoursResize md rz" and "measured md imgs"
    and "layoutImages rz nw twp False sp al n imgs = Inr L"
  shows "\<forall>k<length imgs.
           width (snd (images L ! k)) \<le> width (snd (imgs ! k)) \<and>
           width (snd (images L ! k)) \<le> canvasWidth L \<and>
           (width (snd (imgs ! k)) < canvasWidth L \<longrightarrow> snd (images L ! k) = snd (imgs ! k)) \<and>
           left (composites L ! k) = leftOffset al (canvasWidth L) (width (snd (images L ! k)))"
proof (intro allI impI)
  fix k assume k: "k < length imgs"
  note W = layout_widths [OF assms k]
  have a: "width (snd (images L ! k)) \<le> width (snd (imgs ! k))"
    using W(1) by (simp split: if_splits)
  have b: "width (snd (images L ! k)) \<le> canvasWidth L"
    using W(1,3) by (cases nw) (simp_all split: if_splits)
  have c: "width (snd (imgs ! k)) < canvasWidth L \<longrightarrow> snd (images L ! k) = snd (imgs ! k)"
    using W(2) by simp
  from k layoutImages_InrD(2,4) [OF assms(3)]
  have d: "left (composites L ! k) = leftOffset al (canvasWidth L) (width (snd (images L ! k)))"
    by (simp add: left_placeImages)
  from a b c d show "width (snd (images L ! k)) \<le> width (snd (imgs ! k)) \<and>
           width (snd (images L ! k)) \<le> canvasWidth L \<and>
           (width (snd (imgs ! k)) < canvasWidth L \<longrightarrow> snd (images L ! k) = snd (imgs ! k)) \<and>
           left (composites L ! k) = leftOffset al (canvasWidth L) (width (snd (images L ! k)))"
    by blast
qed

text \<open>
  The theorem at pictures of 100 \<times> 50 and 61 \<times> 30, centred: the second keeps its width 61
  and is placed at the offset 19.
\<close>

theorem no_enlargement_without_upscale_witness:
  "honoursResize sizeMetadata sizeResize
   \<and> measured sizeMetadata
        [(\<lparr>width = 100, height = 50\<rparr>, \<lparr>width = 100, height = 50\<rparr>),
         (\<lparr>width = 61, height = 30\<rparr>, \<lparr>width = 61, height = 30\<rparr>)]
   \<and> layoutImages sizeResize True 0 False 0 Center 2
        [(\<lparr>width = 100, height = 50\<rparr>, \<lparr>width = 100, height = 50\<rparr>),
         (\<lparr>width = 61, height = 30\<rparr>, \<lparr>width = 61, height = 30\<rparr>)]
      = Inr \<lparr>canvasWidth = 100, canvasHeight = 80,
             images = [(\<lparr>width = 100, height = 50\<rparr>, \<lparr>width = 100, height = 50\<rparr>),
                       (\<lparr>width = 61, height = 30\<rparr>, \<lparr>width = 61, height = 30\<rparr>)],
             composites = [\<lparr>input = \<lparr>width = 100, height = 50\<rparr>, top = 0, left = 0\<rparr>,
                           \<lparr>input = \<lparr>width = 61, height = 30\<rparr>, top = 50, left = 19\<rparr>]\<rparr>
   \<and> (61::int) < 100 \<and> (19::int) = leftOffset Center 100 61"
proof -
  let ?a = "(\<lparr>width = 100, height = 50\<rparr>, \<lparr>width = 100, height = 50\<rparr>)"
  let ?b = "(\<lparr>width = 61, height = 30\<rparr>, \<lparr>width = 61, height = 30\<rparr>)"
  let ?L = "\<lparr>canvasWidth = 100, canvasHeight = 80, images = [?a, ?b],
             composites = [\<lparr>input = \<lparr>width = 100, height = 50\<rparr>, top = 0, left = 0\<rparr>, \<lparr>input = \<lparr>width = 61, height = 30\<rparr>, top = 50, left = 19\<rparr>]\<rparr>"
  have hr: "honoursResize sizeMetadata sizeResize"
    by (rule honoursResize_sizeResize)
  have ms: "measured sizeMetadata [?a, ?b]"
    by (rule measured_size)
  have run: "layoutImages sizeResize True 0 False 0 Center 2 [?a, ?b] = Inr ?L"
    by (simp add: layoutImages_def targetWidthOf_def canvasHeightOf_def sizeResize_def Let_def)
  have "width (snd (images ?L ! 1)) \<le> width (snd ([?a, ?b] ! 1)) \<and>
        width (snd (images ?L ! 1)) \<le> canvasWidth ?L \<and>
        (width (snd ([?a, ?b] ! 1)) < canvasWidth ?L \<longrightarrow> snd (images ?L ! 1) = snd ([?a, ?b] ! 1)) \<and>
        left (composites ?L ! 1) = leftOffset Center (canvasWidth ?L) (width (snd (images ?L ! 1)))"
    by (rule no_enlargement_without_upscale [OF hr ms run, THEN spec, THEN mp]) simp
  then have off: "(19::int) = leftOffset Center 100 61" by simp
  have lt: "(61::int) < 100" by simp
  show ?thesis
    by (intro conjI) (rule hr, rule ms, rule run, rule lt, rule off)
qed

section \<open>Facts about hexadecimal text\<close>

lemma hexDigit_bound: "hexDigit c = Some v \<Longrightarrow> v < 16"
  by (auto simp: hexDigit_def Let_def split: if_splits)

lemma hexDigit_not_space: "hexDigit c = Some v \<Longrightarrow> \<not> isWhiteSpace c"
  by (auto simp: hexDigit_def isWhiteSpace_def Let_def split: if_splits)

lemma hexDigit_not_sign: "hexDigit c = Some v \<Longrightarrow> c \<noteq> CHR ''-'' \<and> c \<noteq> CHR ''+''"
  by (auto simp: hexDigit_def Let_def split: if_splits)

lemma hexDigit_not_x: "hexDigit c = Some v \<Longrightarrow> c \<noteq> CHR ''x'' \<and> c \<noteq> CHR ''X''"
  by (auto simp: hexDigit_def Let_def split: if_splits)

lemma parseInt16_two_digits:
  assumes "hexDigit c = Some v" and "hexDigit d = Some u"
  shows "parseInt16 [c, d] = Some (int (16 * v + u))"
  using assms hexDigit_not_space [OF assms(1)] hexDigit_not_sign [OF assms(1)]
    hexDigit_not_x [OF assms(2)]
  by (simp add: parseInt16_def Let_def hexValue_def)

lemma trim_no_space:
  assumes "xs \<noteq> []" and "\<not> isWhiteSpace (hd xs)" and "\<not> isWhiteSpace (last xs)"
  shows "trim xs = xs"
proof -
  from assms(1,2) have 1: "dropWhile isWhiteSpace xs = xs" by (cases xs) auto
  from assms(1,3) have 2: "dropWhile isWhiteSpace (rev xs) = rev xs"
    by (cases "rev xs") (auto simp: last_rev [symmetric] hd_rev simp del: last_rev)
  show ?thesis by (simp add: trim_def 1 2)
qed

lemma toLower_hash: "toLowerChar (CHR ''#'') = CHR ''#''"
  by (simp add: toLowerChar_def)

lemma rgb_of_hex6:
  assumes "hexDigit c1 = Some v1" "hexDigit c2 = Some v2" "hexDigit c3 = Some v3"
    "hexDigit c4 = Some v4" "hexDigit c5 = Some v5" "hexDigit c6 = Some v6"
  shows "parseBackgroundColor (Some [CHR ''#'', c1, c2, c3, c4, c5, c6])
         = \<lparr>r = Some (int (16 * v1 + v2)), g = Some (int (16 * v3 + v4)),
            b = Some (int (16 * v5 + v6)), alpha = Some 1\<rparr>"
proof -
  have t: "trim [c1, c2, c3, c4, c5, c6] = [c1, c2, c3, c4, c5, c6]"
    using hexDigit_not_space [OF assms(1)] hexDigit_not_space [OF assms(6)]
    by (intro trim_no_space) simp_all
  show ?thesis
    by (simp add: parseBackgroundColor_def toLowerCase_def toLower_hash t slice_def
        parseInt16_two_digits [OF assms(1,2)] parseInt16_two_digits [OF assms(3,4)]
        parseInt16_two_digits [OF assms(5,6)])
qed

lemma rgba_of_hex8:
  assumes "hexDigit c1 = Some v1" "hexDigit c2 = Some v2" "hexDigit c3 = Some v3"
    "hexDigit c4 = Some v4" "hexDigit c5 = Some v5" "hexDigit c6 = Some v6"
    "hexDigit c7 = Some v7" "hexDigit c8 = Some v8"
  shows "parseBackgroundColor (Some [CHR ''#'', c1, c2, c3, c4, c5, c6, c7, c8])
         = \<lparr>r = Some (int (16 * v1 + v2)), g = Some (int (16 * v3 + v4)),
            b = Some (int (16 * v5 + v6)),
            alpha = Some (of_int (int (16 * v7 + v8)) / 255)\<rparr>"
proof -
  have t: "trim [c1, c2, c3, c4, c5, c6, c7, c8] = [c1, c2, c3, c4, c5, c6, c7, c8]"
    using hexDigit_not_space [OF assms(1)] hexDigit_not_space [OF assms(8)]
    by (intro trim_no_space) simp_all
  show ?thesis
    by (simp add: parseBackgroundColor_def toLowerCase_def toLower_hash t slice_def
        parseInt16_two_digits [OF assms(1,2)] parseInt16_two_digits [OF assms(3,4)]
        parseInt16_two_digits [OF assms(5,6)] parseInt16_two_digits [OF assms(7,8)])
qed

lemma alpha_range:
  assumes "hexDigit c7 = Some v7" "hexDigit c8 = Some v8"
  shows "0 \<le> (of_int (int (16 * v7 + v8)) / 255 :: rat) \<and> (of_int (int (16 * v7 + v8)) / 255 :: rat) \<le> 1"
proof -
  from hexDigit_bound [OF assms(1)] hexDigit_bound [OF assms(2)]
  have "16 * v7 + v8 \<le> 255" by simp
  then have "(of_int (int (16 * v7 + v8)) :: rat) \<le> 255"
    by (metis of_int_le_iff of_int_numeral of_nat_le_iff of_nat_numeral)
  then show ?thesis by simp
qed


lemma hexDigit_examples:
  "hexDigit (CHR ''f'') = Some 15" "hexDigit (CHR ''F'') = Some 15"
  "hexDigit (CHR ''8'') = Some 8" "hexDigit (CHR ''0'') = Some 0"
  by (simp_all add: hexDigit_def)

section \<open>Background colour (claim C6)\<close>

text \<open>
  Claim C6, as the code has it. An omitted or empty value and the word \<open>transparent\<close>, in
  any letter case, give the fully transparent colour (alpha 0); the code creates the canvas
  with the parsed colour as background (lines 297-305), so that every unpainted pixel of the
  canvas has alpha 0. \<open>#RRGGBB\<close> gives the opaque colour with these three channels and
  \<open>#RRGGBBAA\<close> the colour whose alpha is \<open>AA / 255\<close>, between 0 and 1. Any other input whose
  text, after the first \<open>#\<close> is removed and the ends are trimmed, has neither 6 nor 8
  characters gives opaque white.
\<close>

theorem background_colour_parsing:
  "parseBackgroundColor None = \<lparr>r = Some 0, g = Some 0, b = Some 0, alpha = Some 0\<rparr> \<and>
   (s = [] \<or> toLowerCase s = ''transparent'' \<longrightarrow>
      parseBackgroundColor (Some s) = \<lparr>r = Some 0, g = Some 0, b = Some 0, alpha = Some 0\<rparr>) \<and>
   parseBackgroundColor (Some ''transparent'')
     = \<lparr>r = Some 0, g = Some 0, b = Some 0, alpha = Some 0\<rparr> \<and>
   (hexDigit c1 = Some v1 \<and> hexDigit c2 = Some v2 \<and> hexDigit c3 = Some v3 \<and>
    hexDigit c4 = Some v4 \<and> hexDigit c5 = Some v5 \<and> hexDigit c6 = Some v6 \<longrightarrow>
      parseBackgroundColor (Some [CHR ''#'', c1, c2, c3, c4, c5, c6])
        = \<lparr>r = Some (int (16 * v1 + v2)), g = Some (int (16 * v3 + v4)),
           b = Some (int (16 * v5 + v6)), alpha = Some 1\<rparr>) \<and>
   (hexDigit c1 = Some v1 \<and> hexDigit c2 = Some v2 \<and> hexDigit c3 = Some v3 \<and>
    hexDigit c4 = Some v4 \<and> hexDigit c5 = Some v5 \<and> hexDigit c6 = Some v6 \<and>
    hexDigit c7 = Some v7 \<and> hexDigit c8 = Some v8 \<longrightarrow>
      parseBackgroundColor (Some [CHR ''#'', c1, c2, c3, c4, c5, c6, c7, c8])
        = \<lparr>r = Some (int (16 * v1 + v2)), g = Some (int (16 * v3 + v4)),
           b = Some (int (16 * v5 + v6)),
           alpha = Some (of_int (int (16 * v7 + v8)) / 255)\<rparr> \<and>
      0 \<le> (of_int (int (16 * v7 + v8)) / 255 :: rat) \<and>
      (of_int (int (16 * v7 + v8)) / 255 :: rat) \<le> 1) \<and>
   (t \<noteq> [] \<and> toLowerCase t \<noteq> ''transparent'' \<and>
    length (trim (replaceFirst (CHR ''#'') t)) \<noteq> 6 \<and>
    length (trim (replaceFirst (CHR ''#'') t)) \<noteq> 8 \<longrightarrow>
      parseBackgroundColor (Some t) = \<lparr>r = Some 255, g = Some 255, b = Some 255, alpha = Some 1\<rparr>) \<and>
   ((s = [] \<or> toLowerCase s = ''transparent'') \<and> unpainted lay x y \<longrightarrow>
      map_option alpha (canvasPixel (parseBackgroundColor (Some s)) lay x y) = Some (Some 0) \<and>
      map_option alpha (canvasPixel (parseBackgroundColor None) lay x y) = Some (Some 0))"
proof -
  have none: "parseBackgroundColor None = \<lparr>r = Some 0, g = Some 0, b = Some 0, alpha = Some 0\<rparr>"
    by (simp add: parseBackgroundColor_def)
  have transp: "s = [] \<or> toLowerCase s = ''transparent'' \<longrightarrow>
      parseBackgroundColor (Some s) = \<lparr>r = Some 0, g = Some 0, b = Some 0, alpha = Some 0\<rparr>" for s
    by (simp add: parseBackgroundColor_def)
  have "toLowerCase ''transparent'' = ''transparent''"
    by (simp add: toLowerCase_def toLowerChar_def)
  with transp [of "''transparent''"]
  have lit: "parseBackgroundColor (Some ''transparent'')
     = \<lparr>r = Some 0, g = Some 0, b = Some 0, alpha = Some 0\<rparr>"
    by blast
  have hex6: "hexDigit c1 = Some v1 \<and> hexDigit c2 = Some v2 \<and> hexDigit c3 = Some v3 \<and>
    hexDigit c4 = Some v4 \<and> hexDigit c5 = Some v5 \<and> hexDigit c6 = Some v6 \<longrightarrow>
      parseBackgroundColor (Some [CHR ''#'', c1, c2, c3, c4, c5, c6])
        = \<lparr>r = Some (int (16 * v1 + v2)), g = Some (int (16 * v3 + v4)),
           b = Some (int (16 * v5 + v6)), alpha = Some 1\<rparr>"
    using rgb_of_hex6 [of c1 v1 c2 v2 c3 v3 c4 v4 c5 v5 c6 v6] by blast
  have hex8: "hexDigit c1 = Some v1 \<and> hexDigit c2 = Some v2 \<and> hexDigit c3 = Some v3 \<and>
    hexDigit c4 = Some v4 \<and> hexDigit c5 = Some v5 \<and> hexDigit c6 = Some v6 \<and>
    hexDigit c7 = Some v7 \<and> hexDigit c8 = Some v8 \<longrightarrow>
      parseBackgroundColor (Some [CHR ''#'', c1, c2, c3, c4, c5, c6, c7, c8])
        = \<lparr>r = Some (int (16 * v1 + v2)), g = Some (int (16 * v3 + v4)),
           b = Some (int (16 * v5 + v6)),
           alpha = Some (of_int (int (16 * v7 + v8)) / 255)\<rparr> \<and>
      0 \<le> (of_int (int (16 * v7 + v8)) / 255 :: rat) \<and>
      (of_int (int (16 * v7 + v8)) / 255 :: rat) \<le> 1"
    using rgba_of_hex8 [of c1 v1 c2 v2 c3 v3 c4 v4 c5 v5 c6 v6 c7 v7 c8 v8]
      alpha_range [of c7 v7 c8 v8]
    by blast
  have white: "t \<noteq> [] \<and> toLowerCase t \<noteq> ''transparent'' \<and>
    length (trim (replaceFirst (CHR ''#'') t)) \<noteq> 6 \<and>
    length (trim (replaceFirst (CHR ''#'') t)) \<noteq> 8 \<longrightarrow>
      parseBackgroundColor (Some t) = \<lparr>r = Some 255, g = Some 255, b = Some 255, alpha = Some 1\<rparr>"
    by (simp add: parseBackgroundColor_def Let_def)
  have canvas: "(s = [] \<or> toLowerCase s = ''transparent'') \<and> unpainted lay x y \<longrightarrow>
      map_option alpha (canvasPixel (parseBackgroundColor (Some s)) lay x y) = Some (Some 0) \<and>
      map_option alpha (canvasPixel (parseBackgroundColor None) lay x y) = Some (Some 0)"
  proof (intro impI, elim conjE)
    assume word: "s = [] \<or> toLowerCase s = ''transparent''" and free: "unpainted lay x y"
    from transp [of s] word
    have "parseBackgroundColor (Some s) = \<lparr>r = Some 0, g = Some 0, b = Some 0, alpha = Some 0\<rparr>"
      by (rule mp)
    with none free
    show "map_option alpha (canvasPixel (parseBackgroundColor (Some s)) lay x y) = Some (Some 0) \<and>
      map_option alpha (canvasPixel (parseBackgroundColor None) lay x y) = Some (Some 0)"
      by (simp add: canvasPixel_def)
  qed
  show ?thesis
    by (rule conjI [OF none conjI [OF transp conjI [OF lit conjI [OF hex6 conjI [OF hex8
          conjI [OF white canvas]]]]]])
qed


text \<open>
  The theorem at \<open>TRANSPARENT\<close>, \<open>#ff8000\<close>, \<open>#FF800080\<close> and \<open>red\<close>, and at the pixel
  (5, 60) of a canvas of 100 \<times> 80 whose second picture, 61 wide, is centred below the
  first: the pixel lies left of it.
\<close>

theorem background_colour_parsing_witness:
  "parseBackgroundColor (Some ''TRANSPARENT'')
     = \<lparr>r = Some 0, g = Some 0, b = Some 0, alpha = Some 0\<rparr>
   \<and> parseBackgroundColor (Some ''#ff8000'')
     = \<lparr>r = Some 255, g = Some 128, b = Some 0, alpha = Some 1\<rparr>
   \<and> parseBackgroundColor (Some ''#FF800080'')
     = \<lparr>r = Some 255, g = Some 128, b = Some 0, alpha = Some (128 / 255)\<rparr>
   \<and> parseBackgroundColor (Some ''red'')
     = \<lparr>r = Some 255, g = Some 255, b = Some 255, alpha = Some 1\<rparr>
   \<and> unpainted
        \<lparr>canvasWidth = 100, canvasHeight = 80,
         images = [(\<lparr>width = 100, height = 50\<rparr>, \<lparr>width = 100, height = 50\<rparr>),
                   (\<lparr>width = 61, height = 30\<rparr>, \<lparr>width = 61, height = 30\<rparr>)],
         composites = [\<lparr>input = \<lparr>width = 100, height = 50\<rparr>, top = 0, left = 0\<rparr>,
                       \<lparr>input = \<lparr>width = 61, height = 30\<rparr>, top = 50, left = 19\<rparr>]\<rparr> 5 60
   \<and> map_option alpha
        (canvasPixel (parseBackgroundColor (Some ''TRANSPARENT''))
           \<lparr>canvasWidth = 100, canvasHeight = 80,
            images = [(\<lparr>width = 100, height = 50\<rparr>, \<lparr>width = 100, height = 50\<rparr>),
                      (\<lparr>width = 61, height = 30\<rparr>, \<lparr>width = 61, height = 30\<rparr>)],
            composites = [\<lparr>input = \<lparr>width = 100, height = 50\<rparr>, top = 0, left = 0\<rparr>,
                          \<lparr>input = \<lparr>width = 61, height = 30\<rparr>, top = 50, left = 19\<rparr>]\<rparr> 5 60)
       = Some (Some 0)"
proof -
  let ?L = "\<lparr>canvasWidth = 100, canvasHeight = 80,
         images = [(\<lparr>width = 100, height = 50\<rparr>, \<lparr>width = 100, height = 50\<rparr>),
                   (\<lparr>width = 61, height = 30\<rparr>, \<lparr>width = 61, height = 30\<rparr>)],
         composites = [\<lparr>input = \<lparr>width = 100, height = 50\<rparr>, top = 0, left = 0\<rparr>,
                       \<lparr>input = \<lparr>width = 61, height = 30\<rparr>, top = 50, left = 19\<rparr>]\<rparr>"
  note T = background_colour_parsing
    [where s = "''TRANSPARENT''" and t = "''red''" and lay = ?L and x = 5 and y = 60
       and ?c1.0 = "CHR ''f''" and ?v1.0 = 15 and ?c2.0 = "CHR ''f''" and ?v2.0 = 15
       and ?c3.0 = "CHR ''8''" and ?v3.0 = 8 and ?c4.0 = "CHR ''0''" and ?v4.0 = 0
       and ?c5.0 = "CHR ''0''" and ?v5.0 = 0 and ?c6.0 = "CHR ''0''" and ?v6.0 = 0]
  note U = background_colour_parsing
    [where ?c1.0 = "CHR ''F''" and ?v1.0 = 15 and ?c2.0 = "CHR ''F''" and ?v2.0 = 15
       and ?c3.0 = "CHR ''8''" and ?v3.0 = 8 and ?c4.0 = "CHR ''0''" and ?v4.0 = 0
       and ?c5.0 = "CHR ''0''" and ?v5.0 = 0 and ?c6.0 = "CHR ''0''" and ?v6.0 = 0
       and ?c7.0 = "CHR ''8''" and ?v7.0 = 8 and ?c8.0 = "CHR ''0''" and ?v8.0 = 0]
  have a: "parseBackgroundColor (Some ''TRANSPARENT'')
     = \<lparr>r = Some 0, g = Some 0, b = Some 0, alpha = Some 0\<rparr>"
    by (rule T [THEN conjunct2, THEN conjunct1, THEN mp]) code_simp
  have "parseBackgroundColor (Some [CHR ''#'', CHR ''f'', CHR ''f'', CHR ''8'', CHR ''0'', CHR ''0'', CHR ''0''])
     = \<lparr>r = Some (int (16 * 15 + 15)), g = Some (int (16 * 8 + 0)), b = Some (int (16 * 0 + 0)),
        alpha = Some 1\<rparr>"
    by (rule T [THEN conjunct2, THEN conjunct2, THEN conjunct2, THEN conjunct1, THEN mp])
       (simp add: hexDigit_examples)
  then have b: "parseBackgroundColor (Some ''#ff8000'')
     = \<lparr>r = Some 255, g = Some 128, b = Some 0, alpha = Some 1\<rparr>"
    by simp
  have "parseBackgroundColor (Some [CHR ''#'', CHR ''F'', CHR ''F'', CHR ''8'', CHR ''0'', CHR ''0'', CHR ''0'', CHR ''8'', CHR ''0''])
     = \<lparr>r = Some (int (16 * 15 + 15)), g = Some (int (16 * 8 + 0)), b = Some (int (16 * 0 + 0)),
        alpha = Some (of_int (int (16 * 8 + 0)) / 255)\<rparr> \<and>
      0 \<le> (of_int (int (16 * 8 + 0)) / 255 :: rat) \<and>
      (of_int (int (16 * 8 + 0)) / 255 :: rat) \<le> 1"
    by (rule U [THEN conjunct2, THEN conjunct2, THEN conjunct2, THEN conjunct2, THEN conjunct1, THEN mp])
       (simp add: hexDigit_examples)
  then have c: "parseBackgroundColor (Some ''#FF800080'')
     = \<lparr>r = Some 255, g = Some 128, b = Some 0, alpha = Some (128 / 255)\<rparr>"
    by simp
  have d: "parseBackgroundColor (Some ''red'')
     = \<lparr>r = Some 255, g = Some 255, b = Some 255, alpha = Some 1\<rparr>"
    by (rule T [THEN conjunct2, THEN conjunct2, THEN conjunct2, THEN conjunct2, THEN conjunct2,
          THEN conjunct1, THEN mp])
       (simp add: toLowerCase_def toLowerChar_def trim_def isWhiteSpace_def)
  have free: "unpainted ?L 5 60"
    by (simp add: unpainted_def covers_def)
  have word: "''TRANSPARENT'' = [] \<or> toLowerCase ''TRANSPARENT'' = ''transparent''"
    by code_simp
  from T [THEN conjunct2, THEN conjunct2, THEN conjunct2, THEN conjunct2, THEN conjunct2,
      THEN conjunct2, THEN mp, OF conjI [OF word free]]
  have e: "map_option alpha (canvasPixel (parseBackgroundColor (Some ''TRANSPARENT'')) ?L 5 60)
       = Some (Some 0)"
    by (rule conjunct1)
  show ?thesis
    by (rule conjI [OF a conjI [OF b conjI [OF c conjI [OF d conjI [OF free e]]]]])
qed

text \<open>
  Malformed inputs that do not give white: the six characters of \<open>#GGGGGG\<close> are no
  hexadecimal digits and every channel is \<open>NaN\<close>; \<open>12#3456\<close> is read as the colour
  \<open>#123456\<close>.
\<close>

theorem malformed_colour_counterexample:
  "parseBackgroundColor (Some ''#GGGGGG'') = \<lparr>r = None, g = None, b = None, alpha = Some 1\<rparr>
   \<and> parseBackgroundColor (Some ''#GGGGGG'')
       \<noteq> \<lparr>r = Some 255, g = Some 255, b = Some 255, alpha = Some 1\<rparr>
   \<and> parseBackgroundColor (Some ''12#3456'')
       = \<lparr>r = Some 18, g = Some 52, b = Some 86, alpha = Some 1\<rparr>"
  by (simp add: parseBackgroundColor_def toLowerCase_def toLowerChar_def trim_def isWhiteSpace_def
      slice_def parseInt16_def hexDigit_def hexValue_def Let_def)

section \<open>Facts about trimming and splitting\<close>

lemma dropWhile_hd: "dropWhile P xs \<noteq> [] \<Longrightarrow> \<not> P (hd (dropWhile P xs))"
  by (simp add: hd_dropWhile)

lemma trim_ends:
  assumes "trim s \<noteq> []"
  shows "\<not> isWhiteSpace (hd (trim s))" and "\<not> isWhiteSpace (last (trim s))"
proof -
  let ?t = "dropWhile isWhiteSpace s"
  let ?u = "dropWhile isWhiteSpace (rev ?t)"
  from assms have u: "?u \<noteq> []" by (simp add: trim_def)
  then have hu: "\<not> isWhiteSpace (hd ?u)" by (rule dropWhile_hd)
  with u show "\<not> isWhiteSpace (last (trim s))"
    by (simp add: trim_def last_rev)
  have t: "?t \<noteq> []"
  proof
    assume "?t = []"
    with u show False by simp
  qed
  then have ht: "\<not> isWhiteSpace (hd ?t)" by (rule dropWhile_hd)
  from u obtain ws where "rev ?t = ws @ ?u"
    by (metis takeWhile_dropWhile_id)
  then have "?t = rev ?u @ rev ws" by (metis rev_append rev_rev_ident)
  moreover from u have "rev ?u \<noteq> []" by simp
  ultimately have "hd ?t = hd (rev ?u)" by (metis hd_append2)
  with ht show "\<not> isWhiteSpace (hd (trim s))" by (simp add: trim_def)
qed

lemma trim_idem: "trim (trim s) = trim s"
proof (cases "trim s = []")
  case True
  have "trim [] = []" by (simp add: trim_def)
  with True show ?thesis by simp
next
  case False
  from trim_no_space [OF False trim_ends [OF False]] show ?thesis .
qed

lemma parseKeys_trimmed:
  "k \<in> set (parseKeys toStr p) \<Longrightarrow> k \<noteq> [] \<and> trim k = k"
  by (cases p) (auto simp: trim_idem)

lemma splitKeys_no_separator:
  "piece \<in> set (splitKeys cur s) \<Longrightarrow> CHR 0x0A \<notin> set cur \<Longrightarrow> CHR '','' \<notin> set cur \<Longrightarrow>
   CHR 0x0A \<notin> set piece \<and> CHR '','' \<notin> set piece"
  by (induction cur s rule: splitKeys.induct) (auto split: if_splits)

lemma splitKeys_plain:
  "CHR 0x0A \<notin> set s \<Longrightarrow> CHR '','' \<notin> set s \<Longrightarrow> splitKeys cur s = [cur @ s]"
  by (induction cur s rule: splitKeys.induct) auto

lemma splitKeys_at_comma: "splitKeys cur (CHR '','' # rest) = cur # splitKeys [] rest"
  by (cases rest) auto

lemma splitKeys_at_newline: "splitKeys cur (CHR 0x0A # rest) = cur # splitKeys [] rest"
  by (cases rest) auto

lemma splitKeys_comma:
  "CHR 0x0A \<notin> set a \<Longrightarrow> CHR '','' \<notin> set a \<Longrightarrow>
   splitKeys cur (a @ CHR '','' # rest) = (cur @ a) # splitKeys [] rest"
proof (induction cur a rule: splitKeys.induct)
  case (1 cur)
  then show ?case by (simp add: splitKeys_at_comma)
next
  case (2 cur c)
  then show ?case by (simp add: splitKeys_at_comma)
next
  case (3 cur c d ds)
  then show ?case by auto
qed

lemma splitKeys_newline:
  "CHR 0x0A \<notin> set a \<Longrightarrow> CHR '','' \<notin> set a \<Longrightarrow> (a = [] \<or> last a \<noteq> CHR 0x0D) \<Longrightarrow>
   splitKeys cur (a @ CHR 0x0A # rest) = (cur @ a) # splitKeys [] rest"
proof (induction cur a rule: splitKeys.induct)
  case (1 cur)
  then show ?case by (simp add: splitKeys_at_newline)
next
  case (2 cur c)
  then show ?case by (simp add: splitKeys_at_newline)
next
  case (3 cur c d ds)
  then show ?case by auto
qed


lemma splitKeys_crlf:
  "CHR 0x0A \<notin> set a \<Longrightarrow> CHR '','' \<notin> set a \<Longrightarrow>
   splitKeys cur (a @ CHR 0x0D # CHR 0x0A # rest) = (cur @ a) # splitKeys [] rest"
  by (induction cur a rule: splitKeys.induct) auto

lemma isWhiteSpace_CR: "isWhiteSpace (CHR 0x0D)"
  by (simp add: isWhiteSpace_def)

lemma trim_snoc_space:
  assumes "isWhiteSpace c"
  shows "trim (xs @ [c]) = trim xs"
proof (cases "\<forall>x\<in>set xs. isWhiteSpace x")
  case True
  with assms have "\<forall>x\<in>set (xs @ [c]). isWhiteSpace x" by simp
  then have d1: "dropWhile isWhiteSpace (xs @ [c]) = []"
    by (simp only: dropWhile_eq_Nil_conv)
  from True have d2: "dropWhile isWhiteSpace xs = []"
    by (simp only: dropWhile_eq_Nil_conv)
  show ?thesis by (simp only: trim_def d1 d2)
next
  case False
  then obtain x where "x \<in> set xs" "\<not> isWhiteSpace x" by blast
  then have "dropWhile isWhiteSpace (xs @ [c]) = dropWhile isWhiteSpace xs @ [c]"
    by (simp add: dropWhile_append1)
  with assms show ?thesis by (simp add: trim_def)
qed

lemma keys_of_plain:
  assumes "CHR 0x0A \<notin> set a" and "CHR '','' \<notin> set a"
  shows "parseKeys toStr (KeysString a) = (if trim a = [] then [] else [trim a])"
  using assms by (simp add: splitKeys_plain)

lemma keys_of_comma:
  assumes "CHR 0x0A \<notin> set a" and "CHR '','' \<notin> set a"
  shows "parseKeys toStr (KeysString (a @ CHR '','' # rest))
         = (if trim a = [] then [] else [trim a]) @ parseKeys toStr (KeysString rest)"
  using assms by (simp add: splitKeys_comma)

lemma keys_of_newline:
  assumes "CHR 0x0A \<notin> set a" and "CHR '','' \<notin> set a"
  shows "parseKeys toStr (KeysString (a @ CHR 0x0A # rest))
         = (if trim a = [] then [] else [trim a]) @ parseKeys toStr (KeysString rest)"
proof (cases "a = [] \<or> last a \<noteq> CHR 0x0D")
  case True
  with assms show ?thesis by (simp add: splitKeys_newline)
next
  case False
  then obtain a' where a: "a = a' @ [CHR 0x0D]"
    by (metis append_butlast_last_id)
  with assms have "CHR 0x0A \<notin> set a'" "CHR '','' \<notin> set a'" by auto
  then have "splitKeys [] (a' @ CHR 0x0D # CHR 0x0A # rest) = a' # splitKeys [] rest"
    using splitKeys_crlf [of a' "[]" rest] by simp
  moreover have "trim a = trim a'"
    by (simp add: a trim_snoc_space isWhiteSpace_CR)
  ultimately show ?thesis by (simp add: a)
qed

section \<open>Key parsing and validation (claim C7)\<close>

text \<open>
  Claim C7. The parsed keys are non-empty trimmed strings, in the order of the input. An
  array, and the array \<open>keys\<close> of an object, give their elements, each coerced to a string
  and trimmed, without the empty ones; any other value is coerced to a string and parsed as
  one; \<open>null\<close> and \<open>undefined\<close> give no key. A single string is split at every newline (LF,
  or CR LF) and every comma: a text \<open>a\<close> without newline and comma gives its trimmed form as
  the only key, or no key when that is empty, and \<open>a\<close> followed by a comma or a newline and
  a rest gives the keys of \<open>a\<close> followed by the keys of the rest. \<open>a.png,b.png\<close> parses to the
  two keys \<open>a.png\<close> and \<open>b.png\<close>. The request fails with a \<open>NodeOperationError\<close> (the
  validation error of the spec), before anything is fetched, when no source bucket is given
  or when no key remains.
\<close>

theorem key_parsing_and_validation:
  "(\<forall>k\<in>set (parseKeys toStr p). k \<noteq> [] \<and> trim k = k) \<and>
   (parseKeys toStr (KeysArray ks) = filter (\<lambda>k. k \<noteq> []) (map (\<lambda>v. trim (toStr v)) ks) \<and>
    parseKeys toStr (KeysObject ks) = filter (\<lambda>k. k \<noteq> []) (map (\<lambda>v. trim (toStr v)) ks) \<and>
    parseKeys toStr (KeysOther v) = parseKeys toStr (KeysString (toStr v)) \<and>
    parseKeys toStr KeysNullish = []) \<and>
   (CHR 0x0A \<notin> set a \<and> CHR '','' \<notin> set a \<longrightarrow>
      parseKeys toStr (KeysString a) = (if trim a = [] then [] else [trim a]) \<and>
      parseKeys toStr (KeysString (a @ CHR '','' # rest))
        = (if trim a = [] then [] else [trim a]) @ parseKeys toStr (KeysString rest) \<and>
      parseKeys toStr (KeysString (a @ CHR 0x0A # rest))
        = (if trim a = [] then [] else [trim a]) @ parseKeys toStr (KeysString rest)) \<and>
   parseKeys toStr (KeysString ''a.png,b.png'') = [''a.png'', ''b.png''] \<and>
   (sourceBucket q = [] \<longrightarrow>
      processItem c i q w = (w, Inl (NodeOperationError ''Source bucket is required'' i))) \<and>
   (sourceBucket q \<noteq> [] \<and> parseKeys (js_String c) (sourceKeysParam q) = [] \<longrightarrow>
      processItem c i q w = (w, Inl (NodeOperationError ''At least one source key is required'' i)))"
proof -
  have t: "\<forall>k\<in>set (parseKeys toStr p). k \<noteq> [] \<and> trim k = k"
    using parseKeys_trimmed by blast
  have s: "parseKeys toStr (KeysArray ks) = filter (\<lambda>k. k \<noteq> []) (map (\<lambda>v. trim (toStr v)) ks) \<and>
    parseKeys toStr (KeysObject ks) = filter (\<lambda>k. k \<noteq> []) (map (\<lambda>v. trim (toStr v)) ks) \<and>
    parseKeys toStr (KeysOther v) = parseKeys toStr (KeysString (toStr v)) \<and>
    parseKeys toStr KeysNullish = []"
    by (simp add: comp_def)
  have l: "CHR 0x0A \<notin> set a \<and> CHR '','' \<notin> set a \<longrightarrow>
      parseKeys toStr (KeysString a) = (if trim a = [] then [] else [trim a]) \<and>
      parseKeys toStr (KeysString (a @ CHR '','' # rest))
        = (if trim a = [] then [] else [trim a]) @ parseKeys toStr (KeysString rest) \<and>
      parseKeys toStr (KeysString (a @ CHR 0x0A # rest))
        = (if trim a = [] then [] else [trim a]) @ parseKeys toStr (KeysString rest)"
    using keys_of_plain keys_of_comma keys_of_newline by blast
  have e: "parseKeys toStr (KeysString ''a.png,b.png'') = [''a.png'', ''b.png'']"
    by (simp add: trim_def isWhiteSpace_def)
  have b: "sourceBucket q = [] \<longrightarrow>
      processItem c i q w = (w, Inl (NodeOperationError ''Source bucket is required'' i))"
    by (simp add: processItem_def)
  have k: "sourceBucket q \<noteq> [] \<and> parseKeys (js_String c) (sourceKeysParam q) = [] \<longrightarrow>
      processItem c i q w = (w, Inl (NodeOperationError ''At least one source key is required'' i))"
    by (simp add: processItem_def)
  show ?thesis
    by (rule conjI [OF t conjI [OF s conjI [OF l conjI [OF e conjI [OF b k]]]]])
qed

text \<open>
  The theorem at \<open>a.png,b.png\<close>, at an array of three texts of which one is blank, at a
  first line with spaces around the key, at a request without bucket and at a request whose
  key text holds only a comma and spaces.
\<close>

theorem key_parsing_and_validation_witness:
  "parseKeys (\<lambda>v. v) (KeysString ''a.png,b.png'') = [''a.png'', ''b.png'']
   \<and> ''a.png'' \<noteq> [] \<and> trim ''a.png'' = ''a.png''
   \<and> parseKeys (\<lambda>v. v) (KeysArray ['' a.png'', '' '', ''b.png'']) = [''a.png'', ''b.png'']
   \<and> parseKeys (\<lambda>v. v) (KeysString ('' a.png '' @ CHR 0x0A # ''b.png''))
       = [''a.png''] @ parseKeys (\<lambda>v. v) (KeysString ''b.png'')
   \<and> processItem memoryBackend 0 (exampleRequest\<lparr>sourceBucket := []\<rparr>) exampleWorld
       = (exampleWorld, Inl (NodeOperationError ''Source bucket is required'' 0))
   \<and> processItem memoryBackend 0 (exampleRequest\<lparr>sourceKeysParam := KeysString '' , ''\<rparr>) exampleWorld
       = (exampleWorld, Inl (NodeOperationError ''At least one source key is required'' 0))"
proof -
  note T = key_parsing_and_validation
    [where toStr = "\<lambda>v. v" and p = "KeysString ''a.png,b.png''" and a = "'' a.png ''"
       and ks = "['' a.png'', '' '', ''b.png'']"
       and rest = "''b.png''" and c = memoryBackend and i = 0 and w = exampleWorld
       and q = "exampleRequest\<lparr>sourceBucket := []\<rparr>"]
  note U = key_parsing_and_validation
    [where c = memoryBackend and i = 0 and w = exampleWorld
       and q = "exampleRequest\<lparr>sourceKeysParam := KeysString '' , ''\<rparr>"]
  have e: "parseKeys (\<lambda>v. v) (KeysString ''a.png,b.png'') = [''a.png'', ''b.png'']"
    by (rule T [THEN conjunct2, THEN conjunct2, THEN conjunct2, THEN conjunct1])
  have "''a.png'' \<in> set (parseKeys (\<lambda>v. v) (KeysString ''a.png,b.png''))"
    unfolding e by simp
  from T [THEN conjunct1, THEN bspec, OF this]
  have k: "''a.png'' \<noteq> [] \<and> trim ''a.png'' = ''a.png''" .
  from T [THEN conjunct2, THEN conjunct1, THEN conjunct1]
  have arr: "parseKeys (\<lambda>v. v) (KeysArray ['' a.png'', '' '', ''b.png'']) = [''a.png'', ''b.png'']"
    by (simp add: trim_def isWhiteSpace_def)
  have ta: "trim '' a.png '' = ''a.png''"
    by (simp add: trim_def isWhiteSpace_def)
  have "parseKeys (\<lambda>v. v) (KeysString '' a.png '') = (if trim '' a.png '' = [] then [] else [trim '' a.png '']) \<and>
      parseKeys (\<lambda>v. v) (KeysString ('' a.png '' @ CHR '','' # ''b.png''))
        = (if trim '' a.png '' = [] then [] else [trim '' a.png ''])
          @ parseKeys (\<lambda>v. v) (KeysString ''b.png'') \<and>
      parseKeys (\<lambda>v. v) (KeysString ('' a.png '' @ CHR 0x0A # ''b.png''))
        = (if trim '' a.png '' = [] then [] else [trim '' a.png ''])
          @ parseKeys (\<lambda>v. v) (KeysString ''b.png'')"
    by (rule T [THEN conjunct2, THEN conjunct2, THEN conjunct1, THEN mp]) simp
  then have n: "parseKeys (\<lambda>v. v) (KeysString ('' a.png '' @ CHR 0x0A # ''b.png''))
       = [''a.png''] @ parseKeys (\<lambda>v. v) (KeysString ''b.png'')"
    by (simp only: ta) simp
  have b: "processItem memoryBackend 0 (exampleRequest\<lparr>sourceBucket := []\<rparr>) exampleWorld
       = (exampleWorld, Inl (NodeOperationError ''Source bucket is required'' 0))"
    by (rule T [THEN conjunct2, THEN conjunct2, THEN conjunct2, THEN conjunct2, THEN conjunct1, THEN mp]) simp
  have m: "processItem memoryBackend 0 (exampleRequest\<lparr>sourceKeysParam := KeysString '' , ''\<rparr>) exampleWorld
       = (exampleWorld, Inl (NodeOperationError ''At least one source key is required'' 0))"
    by (rule U [THEN conjunct2, THEN conjunct2, THEN conjunct2, THEN conjunct2, THEN conjunct2, THEN mp])
       (simp add: exampleRequest_def memoryBackend_def trim_def isWhiteSpace_def)
  show ?thesis
    by (rule conjI [OF e conjI [OF k [THEN conjunct1] conjI [OF k [THEN conjunct2] conjI [OF arr conjI [OF n conjI [OF b m]]]]]])
qed

section \<open>Facts about one request\<close>

lemma publish_unset:
  "dstBucket = [] \<or> dstKey = [] \<Longrightarrow> publish c dstBucket dstKey out mime w = (w, Inr None)"
  by (auto simp: publish_def)

lemma publish_puts:
  "puts (fst (publish c dstBucket dstKey out mime w))
   = (if dstBucket \<noteq> [] \<and> dstKey \<noteq> [] then puts w @ [(dstBucket, dstKey, out, mime)] else puts w)"
  by (auto simp: publish_def split: prod.splits)

lemma processItem_shape:
  "(\<exists>e. processItem c i p w = (w, Inl e)) \<or>
   (\<exists>keys lay out.
      processItem c i p w
      = (case publish c (destinationBucket p) (destinationKey p) out (mimeTypeOf (format p)) w of
           (w', Inl m) \<Rightarrow> (w', Inl (LibraryError m))
         | (w', Inr upl) \<Rightarrow> (w', Inr (newItem c p keys lay out upl))))"
proof -
  define qa where "qa = (if format p = PNG then None else Some (quality p))"
  let ?keys = "parseKeys (js_String c) (sourceKeysParam p)"
  show ?thesis
  proof (cases "sourceBucket p = [] \<or> ?keys = []")
    case True
    then show ?thesis by (auto simp: processItem_def Let_def)
  next
    case False
    show ?thesis
    proof (cases "fetchImages c (store w) i (sourceBucket p) ?keys")
      case (Inl e)
      with False show ?thesis by (simp add: processItem_def Let_def)
    next
      case fetched: (Inr imgs)
      show ?thesis
      proof (cases "layoutImages (resize c) (normalizeWidth p) (targetWidthParam p) (allowUpscale p)
                     (spacing p) (alignment p) (length ?keys) imgs")
        case (Inl m)
        with False fetched show ?thesis by (simp add: processItem_def Let_def)
      next
        case laid: (Inr lay)
        show ?thesis
        proof (cases "render c \<lparr>width = canvasWidth lay, height = canvasHeight lay\<rparr>
                          (parseBackgroundColor (Some (backgroundColor p))) (composites lay) (format p) qa")
          case (Inl m)
          with False fetched laid show ?thesis
            unfolding qa_def by (simp add: processItem_def Let_def)
        next
          case (Inr out)
          with False fetched laid have "processItem c i p w
            = (case publish c (destinationBucket p) (destinationKey p) out (mimeTypeOf (format p)) w of
                 (w', Inl m) \<Rightarrow> (w', Inl (LibraryError m))
               | (w', Inr upl) \<Rightarrow> (w', Inr (newItem c p ?keys lay out upl)))"
            unfolding qa_def by (simp add: processItem_def Let_def)
          then show ?thesis by blast
        qed
      qed
    qed
  qed
qed

lemma processItem_world:
  "fst (processItem c i p w) = w \<or>
   (\<exists>out. fst (processItem c i p w)
      = fst (publish c (destinationBucket p) (destinationKey p) out (mimeTypeOf (format p)) w))"
proof -
  from processItem_shape [of c i p w] show ?thesis
  proof (elim disjE exE)
    fix e assume "processItem c i p w = (w, Inl e)"
    then show ?thesis by simp
  next
    fix keys lay out
    assume "processItem c i p w
      = (case publish c (destinationBucket p) (destinationKey p) out (mimeTypeOf (format p)) w of
           (w', Inl m) \<Rightarrow> (w', Inl (LibraryError m))
         | (w', Inr upl) \<Rightarrow> (w', Inr (newItem c p keys lay out upl)))"
    then have "fst (processItem c i p w)
      = fst (publish c (destinationBucket p) (destinationKey p) out (mimeTypeOf (format p)) w)"
      by (simp split: prod.splits sum.splits)
    then show ?thesis by blast
  qed
qed

lemma processItem_Inr:
  assumes "processItem c i p w = (w', Inr item)"
  shows "\<exists>keys lay out upl.
           publish c (destinationBucket p) (destinationKey p) out (mimeTypeOf (format p)) w = (w', Inr upl) \<and>
           item = newItem c p keys lay out upl"
proof -
  from processItem_shape [of c i p w] show ?thesis
  proof (elim disjE exE)
    fix e assume "processItem c i p w = (w, Inl e)"
    with assms show ?thesis by simp
  next
    fix keys lay out
    assume "processItem c i p w
      = (case publish c (destinationBucket p) (destinationKey p) out (mimeTypeOf (format p)) w of
           (w', Inl m) \<Rightarrow> (w', Inl (LibraryError m))
         | (w', Inr upl) \<Rightarrow> (w', Inr (newItem c p keys lay out upl)))"
    with assms have "\<exists>upl. publish c (destinationBucket p) (destinationKey p) out (mimeTypeOf (format p)) w
        = (w', Inr upl) \<and> item = newItem c p keys lay out upl"
      by (simp split: prod.splits sum.splits)
    then show ?thesis by blast
  qed
qed

lemma uploaded_newItem:
  "uploaded (newItem c p keys lay out upl) \<noteq> None
   \<longleftrightarrow> destinationBucket p \<noteq> [] \<and> destinationKey p \<noteq> []"
  by (simp add: newItem_def)

lemmas example_defs =
  processItem_def memoryBackend_def exampleRequest_def exampleWorld_def exampleStore_def
  uploadRequest_def uploadedWorld_def exampleItem_def uploadedItem_def
  trim_def isWhiteSpace_def sizeMetadata_def layoutImages_def targetWidthOf_def canvasHeightOf_def
  parseBackgroundColor_def toLowerCase_def toLowerChar_def publish_def newItem_def Let_def

lemma run_example:
  "processItem memoryBackend i exampleRequest exampleWorld = (exampleWorld, Inr exampleItem)"
  by (simp add: example_defs)

lemma run_upload:
  "processItem memoryBackend i uploadRequest exampleWorld = (uploadedWorld, Inr uploadedItem)"
  by (simp add: example_defs)

section \<open>The upload (claim C8)\<close>

text \<open>
  Claim C8. The upload stage calls \<open>putObject\<close> exactly when the destination bucket and the
  destination key are both non-empty, and then once, with them. When either is unset, a
  request makes no \<open>putObject\<close> call and leaves the state, the store with it, as it was,
  whether it fails or not, and its output item has no \<open>uploaded\<close> value. For a request
  that returns an item, a call was made if and only if both are set, and that is also when
  the item has an \<open>uploaded\<close> value.
\<close>

theorem upload_iff_destination:
  "(puts (fst (publish c dstBucket dstKey out mime w)) \<noteq> puts w
      \<longleftrightarrow> dstBucket \<noteq> [] \<and> dstKey \<noteq> []) \<and>
   puts (fst (publish c dstBucket dstKey out mime w))
     = (if dstBucket \<noteq> [] \<and> dstKey \<noteq> [] then puts w @ [(dstBucket, dstKey, out, mime)] else puts w) \<and>
   (destinationBucket p = [] \<or> destinationKey p = [] \<longrightarrow>
      fst (processItem c i p w) = w \<and>
      (\<forall>item. snd (processItem c i p w) = Inr item \<longrightarrow> uploaded item = None)) \<and>
   (processItem c i p w = (w', Inr item) \<longrightarrow>
      (length (puts w') = Suc (length (puts w))
         \<longleftrightarrow> destinationBucket p \<noteq> [] \<and> destinationKey p \<noteq> []) \<and>
      (puts w' = puts w \<longleftrightarrow> \<not> (destinationBucket p \<noteq> [] \<and> destinationKey p \<noteq> [])) \<and>
      (uploaded item \<noteq> None \<longleftrightarrow> destinationBucket p \<noteq> [] \<and> destinationKey p \<noteq> []))"
proof -
  have a: "puts (fst (publish c dstBucket dstKey out mime w)) \<noteq> puts w
      \<longleftrightarrow> dstBucket \<noteq> [] \<and> dstKey \<noteq> []"
    by (simp add: publish_puts)
  note b = publish_puts [of c dstBucket dstKey out mime w]
  have c': "destinationBucket p = [] \<or> destinationKey p = [] \<longrightarrow>
      fst (processItem c i p w) = w \<and>
      (\<forall>item. snd (processItem c i p w) = Inr item \<longrightarrow> uploaded item = None)"
  proof (intro impI conjI allI)
    assume unset: "destinationBucket p = [] \<or> destinationKey p = []"
    from processItem_world [of c i p w] obtain out' where
      "fst (processItem c i p w) = w \<or> fst (processItem c i p w)
         = fst (publish c (destinationBucket p) (destinationKey p) out' (mimeTypeOf (format p)) w)"
      by blast
    moreover have "fst (publish c (destinationBucket p) (destinationKey p) out' (mimeTypeOf (format p)) w) = w"
      by (simp only: publish_unset [OF unset] fst_conv)
    ultimately show "fst (processItem c i p w) = w" by (elim disjE) simp_all
    fix item' assume "snd (processItem c i p w) = Inr item'"
    then have "processItem c i p w = (fst (processItem c i p w), Inr item')"
      by (cases "processItem c i p w") simp
    from processItem_Inr [OF this] obtain keys lay out' upl where
      "item' = newItem c p keys lay out' upl" by blast
    moreover from unset have "uploaded (newItem c p keys lay out' upl) = None"
      by (simp only: newItem_def) auto
    ultimately show "uploaded item' = None" by simp
  qed
  have d': "processItem c i p w = (w', Inr item) \<longrightarrow>
      (length (puts w') = Suc (length (puts w))
         \<longleftrightarrow> destinationBucket p \<noteq> [] \<and> destinationKey p \<noteq> []) \<and>
      (puts w' = puts w \<longleftrightarrow> \<not> (destinationBucket p \<noteq> [] \<and> destinationKey p \<noteq> [])) \<and>
      (uploaded item \<noteq> None \<longleftrightarrow> destinationBucket p \<noteq> [] \<and> destinationKey p \<noteq> [])"
  proof (rule impI)
    assume run: "processItem c i p w = (w', Inr item)"
    from processItem_Inr [OF run] obtain keys lay out' upl where
      pub: "publish c (destinationBucket p) (destinationKey p) out' (mimeTypeOf (format p)) w = (w', Inr upl)"
      and item: "item = newItem c p keys lay out' upl"
      by blast
    from publish_puts [of c "destinationBucket p" "destinationKey p" out' "mimeTypeOf (format p)" w]
    have pw: "puts w' = (if destinationBucket p \<noteq> [] \<and> destinationKey p \<noteq> []
                    then puts w @ [(destinationBucket p, destinationKey p, out', mimeTypeOf (format p))]
                    else puts w)"
      by (simp only: pub fst_conv)
    have up: "uploaded item \<noteq> None \<longleftrightarrow> destinationBucket p \<noteq> [] \<and> destinationKey p \<noteq> []"
      by (simp only: item uploaded_newItem)
    show "(length (puts w') = Suc (length (puts w))
         \<longleftrightarrow> destinationBucket p \<noteq> [] \<and> destinationKey p \<noteq> []) \<and>
      (puts w' = puts w \<longleftrightarrow> \<not> (destinationBucket p \<noteq> [] \<and> destinationKey p \<noteq> [])) \<and>
      (uploaded item \<noteq> None \<longleftrightarrow> destinationBucket p \<noteq> [] \<and> destinationKey p \<noteq> [])"
    proof (cases "destinationBucket p \<noteq> [] \<and> destinationKey p \<noteq> []")
      case True
      with pw up show ?thesis by simp
    next
      case False
      with pw up show ?thesis by simp
    qed
  qed
  show ?thesis
    by (rule conjI [OF a conjI [OF b conjI [OF c' d']]])
qed

text \<open>
  The theorem at the example request, which has no destination, and at the same request with
  the destination \<open>out\<close>, \<open>o.png\<close>.
\<close>

theorem upload_iff_destination_witness:
  "destinationBucket exampleRequest = []
   \<and> fst (processItem memoryBackend 0 exampleRequest exampleWorld) = exampleWorld
   \<and> processItem memoryBackend 0 exampleRequest exampleWorld = (exampleWorld, Inr exampleItem)
   \<and> uploaded exampleItem = None
   \<and> destinationBucket uploadRequest = ''out'' \<and> destinationKey uploadRequest = ''o.png''
   \<and> processItem memoryBackend 0 uploadRequest exampleWorld = (uploadedWorld, Inr uploadedItem)
   \<and> length (puts uploadedWorld) = Suc (length (puts exampleWorld))
   \<and> uploaded uploadedItem \<noteq> None"
proof -
  note T = upload_iff_destination
    [where c = memoryBackend and i = 0 and p = exampleRequest and w = exampleWorld]
  note U = upload_iff_destination
    [where c = memoryBackend and i = 0 and p = uploadRequest and w = exampleWorld
       and w' = uploadedWorld and item = uploadedItem]
  have unset: "destinationBucket exampleRequest = []"
    by (simp add: exampleRequest_def)
  have set: "destinationBucket uploadRequest = ''out''" "destinationKey uploadRequest = ''o.png''"
    by (simp_all add: uploadRequest_def exampleRequest_def)
  from unset have "destinationBucket exampleRequest = [] \<or> destinationKey exampleRequest = []" ..
  from T [THEN conjunct2, THEN conjunct2, THEN conjunct1, THEN mp, OF this]
  have frame: "fst (processItem memoryBackend 0 exampleRequest exampleWorld) = exampleWorld"
    and none: "\<forall>item. snd (processItem memoryBackend 0 exampleRequest exampleWorld) = Inr item
                 \<longrightarrow> uploaded item = None"
    by blast+
  from none have n: "uploaded exampleItem = None"
    by (simp add: run_example)
  from U [THEN conjunct2, THEN conjunct2, THEN conjunct2, THEN mp, OF run_upload]
  have "length (puts uploadedWorld) = Suc (length (puts exampleWorld))
          \<longleftrightarrow> destinationBucket uploadRequest \<noteq> [] \<and> destinationKey uploadRequest \<noteq> []"
    and "uploaded uploadedItem \<noteq> None
          \<longleftrightarrow> destinationBucket uploadRequest \<noteq> [] \<and> destinationKey uploadRequest \<noteq> []"
    by blast+
  with set have l: "length (puts uploadedWorld) = Suc (length (puts exampleWorld))"
    and u: "uploaded uploadedItem \<noteq> None"
    by simp_all
  show ?thesis
    by (rule conjI [OF unset conjI [OF frame conjI [OF run_example conjI [OF n
          conjI [OF set(1) conjI [OF set(2) conjI [OF run_upload conjI [OF l u]]]]]]]])
qed

section \<open>Facts about the loop over the items\<close>

lemma rethrow_position: "rethrow e i = NodeOperationError (message e) i"
  by (cases e) simp_all

lemma executeLoop_acc:
  "executeLoop c cof i items acc w
   = (case executeLoop c cof i items [] w of
        (w', Inr outs) \<Rightarrow> (w', Inr (acc @ outs))
      | (w', Inl e) \<Rightarrow> (w', Inl e))"
proof (induction items arbitrary: i acc w)
  case Nil
  then show ?case by simp
next
  case (Cons p ps)
  obtain w' res where step: "processItem c i p w = (w', res)" by (cases "processItem c i p w")
  have tail: "executeLoop c cof (Suc i) ps (acc @ [x]) w'
      = (case executeLoop c cof (Suc i) ps [x] w' of
           (w'', Inr outs) \<Rightarrow> (w'', Inr (acc @ outs))
         | (w'', Inl e) \<Rightarrow> (w'', Inl e))" for x
  proof -
    obtain w'' r where rest: "executeLoop c cof (Suc i) ps [] w' = (w'', r)"
      by (cases "executeLoop c cof (Suc i) ps [] w'")
    from Cons.IH [of "Suc i" "acc @ [x]" w'] Cons.IH [of "Suc i" "[x]" w'] rest
    show ?thesis by (cases r) simp_all
  qed
  show ?case
  proof (cases res)
    case (Inr item)
    with step tail [of "Stitched item"] show ?thesis by simp
  next
    case (Inl err)
    show ?thesis
    proof (cases cof)
      case True
      with step Inl tail [of "ErrorItem (message err) i"] show ?thesis by simp
    next
      case False
      with step Inl show ?thesis by simp
    qed
  qed
qed

lemma executeLoop_append:
  "executeLoop c cof i (xs @ ys) acc w
   = (case executeLoop c cof i xs acc w of
        (w1, Inr acc1) \<Rightarrow> executeLoop c cof (i + length xs) ys acc1 w1
      | (w1, Inl e) \<Rightarrow> (w1, Inl e))"
proof (induction xs arbitrary: i acc w)
  case Nil
  then show ?case by simp
next
  case (Cons p ps)
  obtain w' res where step: "processItem c i p w = (w', res)" by (cases "processItem c i p w")
  have shift: "Suc i + length ps = i + length (p # ps)" by simp
  show ?case
  proof (cases res)
    case (Inr item)
    with step Cons.IH [of "Suc i" "acc @ [Stitched item]" w'] show ?thesis
      unfolding shift by simp
  next
    case (Inl err)
    show ?thesis
    proof (cases cof)
      case True
      with step Inl Cons.IH [of "Suc i" "acc @ [ErrorItem (message err) i]" w'] show ?thesis
        unfolding shift by simp
    next
      case False
      with step Inl show ?thesis by simp
    qed
  qed
qed

lemma executeLoop_continue:
  "\<exists>w' outs. executeLoop c True i items acc w = (w', Inr outs) \<and> length outs = length acc + length items"
proof (induction items arbitrary: i acc w)
  case Nil
  then show ?case by simp
next
  case (Cons p ps)
  obtain w' res where step: "processItem c i p w = (w', res)" by (cases "processItem c i p w")
  show ?case
  proof (cases res)
    case (Inr item)
    with step Cons.IH [of "Suc i" "acc @ [Stitched item]" w'] show ?thesis by auto
  next
    case (Inl err)
    with step Cons.IH [of "Suc i" "acc @ [ErrorItem (message err) i]" w'] show ?thesis by auto
  qed
qed

lemma executeLoop_length:
  "executeLoop c cof i items acc w = (w', Inr outs) \<Longrightarrow> length outs = length acc + length items"
proof (induction items arbitrary: i acc w)
  case Nil
  then show ?case by simp
next
  case (Cons p ps)
  obtain w1 res where step: "processItem c i p w = (w1, res)" by (cases "processItem c i p w")
  show ?case
  proof (cases res)
    case (Inr item)
    with step Cons.prems have "executeLoop c cof (Suc i) ps (acc @ [Stitched item]) w1 = (w', Inr outs)"
      by simp
    from Cons.IH [OF this] show ?thesis by simp
  next
    case (Inl err)
    with step Cons.prems have "executeLoop c cof (Suc i) ps (acc @ [ErrorItem (message err) i]) w1 = (w', Inr outs)"
      by (simp split: if_splits)
    from Cons.IH [OF this] show ?thesis by simp
  qed
qed

lemma execute_step:
  assumes pre: "execute c cof pre w = (w1, Inr outs)"
  shows "execute c cof (pre @ p # post) w = executeLoop c cof (length pre) (p # post) outs w1"
  using pre by (simp add: execute_def executeLoop_append)

lemma run_noBucket:
  "processItem memoryBackend i noBucketRequest w = (w, Inl (NodeOperationError ''Source bucket is required'' i))"
  by (simp add: processItem_def noBucketRequest_def)

lemma execute_first:
  "execute memoryBackend cof [exampleRequest] exampleWorld = (exampleWorld, Inr [Stitched exampleItem])"
  by (simp add: execute_def run_example)

section \<open>The batch (claim C9)\<close>

text \<open>
  Claim C9. The requests are processed one after the other in input order: after the
  requests \<open>pre\<close> the request \<open>p\<close> runs with the index \<open>length pre\<close> in the state they left,
  and the loop goes on with the next index in the state \<open>p\<close> left. With continue-on-failure
  every batch returns one output item per request; a failed request leaves the placeholder
  with its message and its index at its position and the remaining requests are processed.
  Without it the first failure leaves \<open>execute\<close> as a \<open>NodeOperationError\<close> with the index of
  the failed request, in the state that request left, whatever requests follow.
\<close>

theorem batch_continue_or_abort:
  "(\<exists>w' outs. execute c True items w = (w', Inr outs) \<and> length outs = length items) \<and>
   (execute c cof pre w = (w1, Inr outs) \<and> processItem c (length pre) p w1 = (w2, Inr item) \<longrightarrow>
      length outs = length pre \<and>
      execute c cof (pre @ p # post) w
        = executeLoop c cof (Suc (length pre)) post (outs @ [Stitched item]) w2) \<and>
   (execute c True pre w = (w1, Inr outs) \<and> processItem c (length pre) p w1 = (w2, Inl e) \<longrightarrow>
      length outs = length pre \<and>
      execute c True (pre @ p # post) w
        = executeLoop c True (Suc (length pre)) post (outs @ [ErrorItem (message e) (length pre)]) w2 \<and>
      (\<exists>w3 rest. execute c True (pre @ p # post) w
                    = (w3, Inr (outs @ ErrorItem (message e) (length pre) # rest)) \<and>
                  length rest = length post)) \<and>
   (execute c False pre w = (w1, Inr outs) \<and> processItem c (length pre) p w1 = (w2, Inl e) \<longrightarrow>
      execute c False (pre @ p # post) w = (w2, Inl (NodeOperationError (message e) (length pre))))"
proof -
  have all: "\<exists>w' outs. execute c True items w = (w', Inr outs) \<and> length outs = length items"
    using executeLoop_continue [of c 0 items "[]" w] by (simp add: execute_def)
  have ok: "execute c cof pre w = (w1, Inr outs) \<and> processItem c (length pre) p w1 = (w2, Inr item) \<longrightarrow>
      length outs = length pre \<and>
      execute c cof (pre @ p # post) w
        = executeLoop c cof (Suc (length pre)) post (outs @ [Stitched item]) w2"
  proof (intro impI, elim conjE)
    assume pre: "execute c cof pre w = (w1, Inr outs)"
      and step: "processItem c (length pre) p w1 = (w2, Inr item)"
    from pre have "length outs = length pre"
      using executeLoop_length [of c cof 0 pre "[]" w w1 outs] by (simp add: execute_def)
    moreover from execute_step [OF pre, of p post] step
    have "execute c cof (pre @ p # post) w
        = executeLoop c cof (Suc (length pre)) post (outs @ [Stitched item]) w2"
      by simp
    ultimately show "length outs = length pre \<and>
      execute c cof (pre @ p # post) w
        = executeLoop c cof (Suc (length pre)) post (outs @ [Stitched item]) w2"
      by (rule conjI)
  qed
  have cont: "execute c True pre w = (w1, Inr outs) \<and> processItem c (length pre) p w1 = (w2, Inl e) \<longrightarrow>
      length outs = length pre \<and>
      execute c True (pre @ p # post) w
        = executeLoop c True (Suc (length pre)) post (outs @ [ErrorItem (message e) (length pre)]) w2 \<and>
      (\<exists>w3 rest. execute c True (pre @ p # post) w
                    = (w3, Inr (outs @ ErrorItem (message e) (length pre) # rest)) \<and>
                  length rest = length post)"
  proof (intro impI, elim conjE)
    assume pre: "execute c True pre w = (w1, Inr outs)"
      and step: "processItem c (length pre) p w1 = (w2, Inl e)"
    from pre have len: "length outs = length pre"
      using executeLoop_length [of c True 0 pre "[]" w w1 outs] by (simp add: execute_def)
    from execute_step [OF pre, of p post] step
    have loop: "execute c True (pre @ p # post) w
        = executeLoop c True (Suc (length pre)) post (outs @ [ErrorItem (message e) (length pre)]) w2"
      by simp
    from executeLoop_continue [of c "Suc (length pre)" post "[]" w2]
    obtain w3 rest where rest: "executeLoop c True (Suc (length pre)) post [] w2 = (w3, Inr rest)"
      and lr: "length rest = length post"
      by auto
    from loop rest
    have "execute c True (pre @ p # post) w
            = (w3, Inr (outs @ ErrorItem (message e) (length pre) # rest))"
      by (simp add: executeLoop_acc [of c True "Suc (length pre)" post "outs @ [ErrorItem (message e) (length pre)]" w2])
    with lr have "\<exists>w3 rest. execute c True (pre @ p # post) w
                    = (w3, Inr (outs @ ErrorItem (message e) (length pre) # rest)) \<and>
                  length rest = length post"
      by blast
    with len loop show "length outs = length pre \<and>
      execute c True (pre @ p # post) w
        = executeLoop c True (Suc (length pre)) post (outs @ [ErrorItem (message e) (length pre)]) w2 \<and>
      (\<exists>w3 rest. execute c True (pre @ p # post) w
                    = (w3, Inr (outs @ ErrorItem (message e) (length pre) # rest)) \<and>
                  length rest = length post)"
      by blast
  qed
  have abort: "execute c False pre w = (w1, Inr outs) \<and> processItem c (length pre) p w1 = (w2, Inl e) \<longrightarrow>
      execute c False (pre @ p # post) w = (w2, Inl (NodeOperationError (message e) (length pre)))"
  proof (intro impI, elim conjE)
    assume pre: "execute c False pre w = (w1, Inr outs)"
      and step: "processItem c (length pre) p w1 = (w2, Inl e)"
    from execute_step [OF pre, of p post] step
    show "execute c False (pre @ p # post) w = (w2, Inl (NodeOperationError (message e) (length pre)))"
      by (simp add: rethrow_position)
  qed
  show ?thesis
    by (rule conjI [OF all conjI [OF ok conjI [OF cont abort]]])
qed

text \<open>
  The theorem at a batch of three requests of which the second has no source bucket: with
  continue-on-failure the third request is stitched and uploaded, without it the batch ends
  at the second.
\<close>

theorem batch_continue_or_abort_witness:
  "execute memoryBackend True [exampleRequest] exampleWorld = (exampleWorld, Inr [Stitched exampleItem])
   \<and> processItem memoryBackend (length [exampleRequest]) noBucketRequest exampleWorld
       = (exampleWorld, Inl (NodeOperationError ''Source bucket is required'' 1))
   \<and> execute memoryBackend True ([exampleRequest] @ noBucketRequest # [uploadRequest]) exampleWorld
       = (uploadedWorld,
          Inr [Stitched exampleItem, ErrorItem ''Source bucket is required'' 1, Stitched uploadedItem])
   \<and> execute memoryBackend False ([exampleRequest] @ noBucketRequest # [uploadRequest]) exampleWorld
       = (exampleWorld, Inl (NodeOperationError ''Source bucket is required'' 1))"
proof -
  let ?e = "NodeOperationError ''Source bucket is required'' 1"
  have step: "processItem memoryBackend (length [exampleRequest]) noBucketRequest exampleWorld
       = (exampleWorld, Inl ?e)"
    by (simp add: run_noBucket)
  note T = batch_continue_or_abort
    [where c = memoryBackend and w = exampleWorld and pre = "[exampleRequest]"
       and ?w1.0 = exampleWorld and outs = "[Stitched exampleItem]" and p = noBucketRequest
       and ?w2.0 = exampleWorld and e = ?e and post = "[uploadRequest]"]
  from T [THEN conjunct2, THEN conjunct2, THEN conjunct1, THEN mp, OF conjI [OF execute_first step]]
  have "execute memoryBackend True ([exampleRequest] @ noBucketRequest # [uploadRequest]) exampleWorld
        = executeLoop memoryBackend True (Suc (length [exampleRequest])) [uploadRequest]
            ([Stitched exampleItem] @ [ErrorItem (message ?e) (length [exampleRequest])]) exampleWorld"
    by blast
  then have cont: "execute memoryBackend True ([exampleRequest] @ noBucketRequest # [uploadRequest]) exampleWorld
       = (uploadedWorld,
          Inr [Stitched exampleItem, ErrorItem ''Source bucket is required'' 1, Stitched uploadedItem])"
    by (simp add: run_upload)
  from T [THEN conjunct2, THEN conjunct2, THEN conjunct2, THEN mp, OF conjI [OF execute_first step]]
  have abort: "execute memoryBackend False ([exampleRequest] @ noBucketRequest # [uploadRequest]) exampleWorld
       = (exampleWorld, Inl ?e)"
    by simp
  show ?thesis
    by (rule conjI [OF execute_first conjI [OF step conjI [OF cont abort]]])
qed

end
